theory Spec2Isabelle
  imports Main
begin

section \<open>JavaScript strings\<close>

text \<open>
  A JavaScript string is a sequence of UTF-16 code units and \<open>length\<close> counts code
  units.  The model represents a code unit by a \<^typ>\<open>char\<close>, that is, it covers the
  strings over U+0000..U+00FF.  On that range the character classes and the case mapping
  below are the ones of ECMAScript.
\<close>

definition isDigit :: "char \<Rightarrow> bool" where
  \<comment> \<open>the regular expression class \<open>\d\<close>\<close>
  "isDigit c = (c \<in> set ''0123456789'')"

definition isWhiteSpace :: "char \<Rightarrow> bool" where
  \<comment> \<open>the class \<open>\s\<close>, also what \<open>trim\<close> strips: TAB, LF, VT, FF, CR, SP, NBSP\<close>
  "isWhiteSpace c = (c \<in> set [CHR 0x09, CHR 0x0A, CHR 0x0B, CHR 0x0C, CHR 0x0D, CHR 0x20, CHR 0xA0])"

definition isLineTerminator :: "char \<Rightarrow> bool" where
  \<comment> \<open>the characters that \<open>.\<close> does not match\<close>
  "isLineTerminator c = (c \<in> set [CHR 0x0A, CHR 0x0D])"

definition lowerChar :: "char \<Rightarrow> char" where
  "lowerChar c =
     (let n = (of_char c :: nat)
      in if (65 \<le> n \<and> n \<le> 90) \<or> (192 \<le> n \<and> n \<le> 222 \<and> n \<noteq> 215)
         then char_of (n + 32) else c)"

definition toLowerCase :: "string \<Rightarrow> string" where
  "toLowerCase s = map lowerChar s"

definition trim :: "string \<Rightarrow> string" where
  "trim s = rev (dropWhile isWhiteSpace (rev (dropWhile isWhiteSpace s)))"

definition startsWith :: "string \<Rightarrow> string \<Rightarrow> bool" where
  "startsWith s p = (take (length p) s = p)"

fun includesStr :: "string \<Rightarrow> string \<Rightarrow> bool" where
  "includesStr [] q = (q = [])"
| "includesStr (c # cs) q = (startsWith (c # cs) q \<or> includesStr cs q)"

fun indexOf :: "string \<Rightarrow> string \<Rightarrow> nat option" where
  "indexOf [] q = (if q = [] then Some 0 else None)"
| "indexOf (c # cs) q =
     (if startsWith (c # cs) q then Some 0
      else (case indexOf cs q of None \<Rightarrow> None | Some i \<Rightarrow> Some (Suc i)))"

definition slice :: "string \<Rightarrow> nat \<Rightarrow> nat \<Rightarrow> string" where
  \<comment> \<open>\<open>s.slice(i, j)\<close> for \<open>0 \<le> i\<close> and \<open>0 \<le> j\<close>\<close>
  "slice s i j = take (j - i) (drop i s)"

section \<open>Phone normalisation (phoneUtils)\<close>

definition normalizePhoneNumber :: "string \<Rightarrow> string" where
  "normalizePhoneNumber phone =
     (if phone = [] then []
      else
        let cleaned = filter isDigit phone
        in if startsWith cleaned ''960'' then cleaned
           else if length cleaned = 7 \<and> list_all isDigit cleaned then ''960'' @ cleaned
           else if startsWith cleaned ''0'' then ''960'' @ drop 1 cleaned
           else if length cleaned \<ge> 10 then cleaned
           else if length cleaned = 7 then ''960'' @ cleaned
           else cleaned)"

section \<open>Search worker (search.worker)\<close>

record SearchIndexItem =
  contactId :: string
  "text" :: string

datatype IncomingMessage =
    Init "SearchIndexItem list"
  | Search int string

datatype OutgoingMessage = Result int "string list"

text \<open>The \<open>for ... of index\<close> loop of the search branch, pushing the matching ids.\<close>

fun scanIndex :: "SearchIndexItem list \<Rightarrow> string \<Rightarrow> string list" where
  "scanIndex [] lowerQuery = []"
| "scanIndex (it # rest) lowerQuery =
     (if includesStr (SearchIndexItem.text it) lowerQuery
      then contactId it # scanIndex rest lowerQuery
      else scanIndex rest lowerQuery)"

text \<open>
  The handler, with the module variable \<open>index\<close> passed in and returned, and the posted
  message (if any) as the second component.
\<close>

definition onmessage ::
  "SearchIndexItem list \<Rightarrow> IncomingMessage \<Rightarrow> SearchIndexItem list \<times> OutgoingMessage option" where
  "onmessage index e =
     (case e of
        Init searchIndex \<Rightarrow>
          (map (\<lambda>it. \<lparr>contactId = contactId it,
                       SearchIndexItem.text = toLowerCase (SearchIndexItem.text it)\<rparr>) searchIndex,
           None)
      | Search i query \<Rightarrow>
          (let lowerQuery = trim (toLowerCase query)
           in if lowerQuery = [] then (index, Some (Result i []))
              else (index, Some (Result i (scanIndex index lowerQuery)))))"


section \<open>Records, contacts and messages (types)\<close>

text \<open>
  A \<open>Date\<close> is its time value: \<open>Some t\<close> for \<open>t\<close> milliseconds, \<open>None\<close> for an
  Invalid Date, whose \<open>getTime()\<close> is NaN.  A \<open>number\<close> that may be NaN is modelled
  in the same way.
\<close>

type_synonym Date = "int option"

record SMSParty =
  direction :: string
  phone :: string
  name :: string

record SMSTime =
  date :: string
  time :: string

record SMSRecord =
  id_r :: int
  folder :: string
  party :: SMSParty
  time :: SMSTime
  status :: string
  message :: string
  deleted :: "string option"

record DataRecord =
  ID :: string
  Type :: string
  Direction :: string
  Attachments :: string
  Locations :: string
  Timestamp :: string
  Party :: string
  Description :: string
  Deleted :: string

text \<open>
  \<open>isDataRecord\<close> tells the two shapes apart by the presence of the fields \<open>ID\<close>,
  \<open>Type\<close> and \<open>Description\<close>; in the model the constructor carries that information.
\<close>

datatype UnifiedRecord = Legacy SMSRecord | Data DataRecord

fun isDataRecord :: "UnifiedRecord \<Rightarrow> bool" where
  "isDataRecord (Data d) = True"
| "isDataRecord (Legacy r) = False"

record Contact =
  phone :: string
  name :: string
  normalizedPhone :: string
  lastMessage :: string
  lastMessageTime :: Date
  messageCount :: nat
  isRead :: bool

datatype MessageStatus = Sent | Delivered | Read | Failed

record Message =
  id_m :: "int option"
  "text" :: string
  timestamp :: Date
  isFromMe :: bool
  isRead :: bool
  status :: MessageStatus
  isCallLog :: bool

section \<open>Message utilities (messageUtils)\<close>

subsection \<open>Status mapping\<close>

text \<open>
  \<open>smsStatus?.toLowerCase()\<close> is \<open>undefined\<close> for a missing status, which reaches the
  \<open>default\<close> branches; the argument is therefore optional in the model.
\<close>

definition mapSMSStatusToMessageStatus :: "string option \<Rightarrow> bool \<Rightarrow> MessageStatus" where
  "mapSMSStatusToMessageStatus smsStatus fromMe =
     (let normalizedStatus = map_option toLowerCase smsStatus
      in if \<not> fromMe then
           (if normalizedStatus = Some ''read'' then Read
            else if normalizedStatus = Some ''unread'' then Delivered
            else Delivered)
         else
           (if normalizedStatus = Some ''sent'' then Delivered
            else if normalizedStatus = Some ''read'' then Read
            else if normalizedStatus = Some ''unsent'' \<or> normalizedStatus = Some ''failed''
                    \<or> normalizedStatus = Some ''error'' then Failed
            else Sent))"

subsection \<open>String helpers of the platform\<close>

fun split :: "string \<Rightarrow> char \<Rightarrow> string list" where
  \<comment> \<open>\<open>s.split(sep)\<close> for a one-character separator\<close>
  "split [] sep = [[]]"
| "split (c # cs) sep =
     (if c = sep then [] # split cs sep
      else (case split cs sep of [] \<Rightarrow> [[c]] | p # ps \<Rightarrow> (c # p) # ps))"

definition nth_opt :: "'a list \<Rightarrow> nat \<Rightarrow> 'a option" where
  \<comment> \<open>array element access: \<open>undefined\<close> beyond the end\<close>
  "nth_opt xs i = (if i < length xs then Some (xs ! i) else None)"

definition show_opt :: "string option \<Rightarrow> string" where
  \<comment> \<open>a value inside a template literal\<close>
  "show_opt v = (case v of None \<Rightarrow> ''undefined'' | Some s \<Rightarrow> s)"

definition padStart2 :: "string \<Rightarrow> string" where
  \<comment> \<open>\<open>s.padStart(2, "0")\<close>\<close>
  "padStart2 s = replicate (2 - length s) CHR ''0'' @ s"

fun replaceParen :: "string \<Rightarrow> string" where
  \<comment> \<open>\<open>s.replace(/\(.*\)/, "")\<close>: the leftmost \<open>(\<close> that has a \<open>)\<close> after it on the same
     line is removed together with everything up to the last such \<open>)\<close>\<close>
  "replaceParen [] = []"
| "replaceParen (c # cs) =
     (let seg = takeWhile (\<lambda>x. \<not> isLineTerminator x) cs
      in if c = CHR ''('' \<and> CHR '')'' \<in> set seg
         then drop (length (dropWhile (\<lambda>x. x \<noteq> CHR '')'') (rev seg))) cs
         else c # replaceParen cs)"

definition removeFirst :: "string \<Rightarrow> string \<Rightarrow> string" where
  \<comment> \<open>\<open>s.replace(p, "")\<close> for a string pattern \<open>p\<close>\<close>
  "removeFirst s p =
     (case indexOf s p of None \<Rightarrow> s | Some i \<Rightarrow> take i s @ drop (i + length p) s)"

subsection \<open>Timestamps\<close>

text \<open>
  What the code takes from the platform: the \<open>Date\<close> constructor on a string, the clock
  read by \<open>new Date()\<close> while the \<open>i\<close>-th record of the input is processed, and
  \<open>parseInt\<close>.
\<close>

record Platform =
  DateOfString :: "string \<Rightarrow> Date"
  DateNow :: "nat \<Rightarrow> int"
  parseInt :: "string \<Rightarrow> int option"

text \<open>
  \<open>parseNewTimestamp\<close>.  Inside the \<open>try\<close> block a method call on \<open>undefined\<close> throws,
  and the \<open>catch\<close> answers with the current time; on a string that happens exactly when
  the date part has no \<open>/\<close>, so that \<open>month\<close> is undefined.  \<open>new Date(isoStr)\<close> does
  not throw: for a string it cannot parse it yields an Invalid Date.
\<close>

definition parseNewTimestamp :: "Platform \<Rightarrow> nat \<Rightarrow> string \<Rightarrow> Date" where
  "parseNewTimestamp pf i timestampStr =
     (let cleanStr = trim (replaceParen timestampStr);
          parts = split cleanStr CHR '' '';
          datePart = nth_opt parts 0;
          timePart = nth_opt parts 1
      in case datePart of
           None \<Rightarrow> Some (DateNow pf i)
         | Some dp \<Rightarrow>
             (let dmy = split dp CHR ''/'';
                  day = nth_opt dmy 0;
                  month = nth_opt dmy 1;
                  year = nth_opt dmy 2
              in case (month, day) of
                   (Some m, Some d) \<Rightarrow>
                     DateOfString pf
                       (show_opt year @ ''-'' @ padStart2 m @ ''-'' @ padStart2 d @ ''T'' @ show_opt timePart)
                 | _ \<Rightarrow> Some (DateNow pf i)))"

definition parseLegacyTimestamp :: "Platform \<Rightarrow> SMSTime \<Rightarrow> Date" where
  \<comment> \<open>the \<open>try\<close> block of the legacy branch; nothing in it throws on string fields\<close>
  "parseLegacyTimestamp pf t =
     (let dateParts = split (date t) CHR ''/'';
          day = nth_opt dateParts 0;
          month = nth_opt dateParts 1;
          year = nth_opt dateParts 2;
          timeStr = replaceParen (SMSTime.time t)
      in DateOfString pf
           (show_opt month @ ''/'' @ show_opt day @ ''/'' @ show_opt year @ '' '' @ timeStr))"

subsection \<open>The Party field\<close>

text \<open>
  The regular expressions of \<open>extractPhoneFromParty\<close>, each as the function computing
  its match.  \<open>afterPrefix\<close> is \<open>\s*(.+)\<close> right after a matched \<open>From:\<close> or \<open>To:\<close>: the
  whitespace run is skipped and the group takes the rest of the line; when only whitespace
  follows, backtracking leaves the last character that is no line terminator to the group.
\<close>

definition afterPrefix :: "string \<Rightarrow> string option" where
  "afterPrefix rest =
     (let after = dropWhile isWhiteSpace rest
      in if after \<noteq> [] then Some (takeWhile (\<lambda>x. \<not> isLineTerminator x) after)
         else (case dropWhile isLineTerminator (rev rest) of
                 [] \<Rightarrow> None
               | x # _ \<Rightarrow> Some [x]))"

fun matchFromTo :: "string \<Rightarrow> string option" where
  \<comment> \<open>group 1 of \<open>/(?:From:|To:)\s*(.+)/\<close>, at the leftmost position that matches\<close>
  "matchFromTo [] = None"
| "matchFromTo (c # cs) =
     (let here =
            (if startsWith (c # cs) ''From:'' then afterPrefix (drop 5 (c # cs))
             else if startsWith (c # cs) ''To:'' then afterPrefix (drop 3 (c # cs))
             else None)
      in case here of Some g \<Rightarrow> Some g | None \<Rightarrow> matchFromTo cs)"

definition phoneNameMatch :: "string \<Rightarrow> (string \<times> string) option" where
  \<comment> \<open>groups 1 and 2 of \<open>/^(\+?\d+)\s+(.+)$/\<close>\<close>
  "phoneNameMatch s =
     (let sign = (if startsWith s ''+'' then ''+'' else []);
          r1 = drop (length sign) s;
          digits = takeWhile isDigit r1;
          r2 = dropWhile isDigit r1;
          ws = takeWhile isWhiteSpace r2;
          r3 = dropWhile isWhiteSpace r2
      in if digits = [] \<or> ws = [] then None
         else if r3 \<noteq> [] then
           (if list_ex isLineTerminator r3 then None else Some (sign @ digits, r3))
         else if 2 \<le> length ws \<and> \<not> isLineTerminator (last ws) then Some (sign @ digits, [last ws])
         else None)"

definition phoneOnly :: "string \<Rightarrow> bool" where
  \<comment> \<open>\<open>/^\+?\d+$/\<close>\<close>
  "phoneOnly s =
     (let r1 = (if startsWith s ''+'' then drop 1 s else s)
      in r1 \<noteq> [] \<and> list_all isDigit r1)"

definition phoneAt :: "string \<Rightarrow> string option" where
  \<comment> \<open>\<open>\+?\d{7,15}\<close> anchored at the start of the string\<close>
  "phoneAt s =
     (if startsWith s ''+'' \<and> 7 \<le> length (takeWhile isDigit (drop 1 s))
      then Some (''+'' @ take 15 (takeWhile isDigit (drop 1 s)))
      else if 7 \<le> length (takeWhile isDigit s) then Some (take 15 (takeWhile isDigit s))
      else None)"

fun phoneMatch :: "string \<Rightarrow> string option" where
  \<comment> \<open>group 1 of \<open>/(\+?\d{7,15})/\<close>, at the leftmost position that matches\<close>
  "phoneMatch [] = None"
| "phoneMatch (c # cs) =
     (case phoneAt (c # cs) of Some p \<Rightarrow> Some p | None \<Rightarrow> phoneMatch cs)"

definition extractPhoneFromParty :: "string \<Rightarrow> (string \<times> string) option" where
  \<comment> \<open>the result is the pair (phone, name); \<open>None\<close> is \<open>null\<close>\<close>
  "extractPhoneFromParty p =
     (if p = [] then None
      else case matchFromTo p of
        None \<Rightarrow> None
      | Some g \<Rightarrow>
          (let partyContent = trim g
           in case phoneNameMatch partyContent of
                Some (ph, nm) \<Rightarrow> Some (ph, trim nm)
              | None \<Rightarrow>
                  if phoneOnly partyContent then Some (partyContent, ''Unknown'')
                  else (case phoneMatch partyContent of
                          Some ph \<Rightarrow>
                            (let nm = trim (removeFirst partyContent ph)
                             in Some (ph, if nm = [] then ''Unknown'' else nm))
                        | None \<Rightarrow> None)))"

definition emptyPrefix :: "string \<Rightarrow> string \<Rightarrow> bool" where
  \<comment> \<open>\<open>/^From:\s*$/i\<close> and \<open>/^To:\s*$/i\<close>, for the lowercase prefix \<open>pre\<close>\<close>
  "emptyPrefix pre s =
     (toLowerCase (take (length pre) s) = pre \<and> list_all isWhiteSpace (drop (length pre) s))"

subsection \<open>Sorting\<close>

text \<open>
  \<open>Array.prototype.sort\<close> with a comparator: stable, and a comparator result of NaN
  counts as \<open>0\<close>.  With a consistent comparator every stable sort produces the same
  array, so insertion sort stands for it.  With an inconsistent one (NaN between ordered
  values) the language leaves the order to the engine, and the model is one such order.
\<close>

definition numSub :: "int option \<Rightarrow> int option \<Rightarrow> int option" where
  "numSub a b = (case a of None \<Rightarrow> None | Some x \<Rightarrow> (case b of None \<Rightarrow> None | Some y \<Rightarrow> Some (x - y)))"

definition dateGt :: "Date \<Rightarrow> Date \<Rightarrow> bool" where
  \<comment> \<open>\<open>a > b\<close> on Date objects: false as soon as one side is NaN\<close>
  "dateGt a b = (case a of None \<Rightarrow> False | Some x \<Rightarrow> (case b of None \<Rightarrow> False | Some y \<Rightarrow> x > y))"

definition notAfter :: "('a \<Rightarrow> 'a \<Rightarrow> int option) \<Rightarrow> 'a \<Rightarrow> 'a \<Rightarrow> bool" where
  "notAfter cmp x y = (case cmp x y of None \<Rightarrow> True | Some v \<Rightarrow> v \<le> 0)"

fun insertSorted :: "('a \<Rightarrow> 'a \<Rightarrow> int option) \<Rightarrow> 'a \<Rightarrow> 'a list \<Rightarrow> 'a list" where
  "insertSorted cmp x [] = [x]"
| "insertSorted cmp x (y # ys) =
     (if notAfter cmp x y then x # y # ys else y # insertSorted cmp x ys)"

definition sortBy :: "('a \<Rightarrow> 'a \<Rightarrow> int option) \<Rightarrow> 'a list \<Rightarrow> 'a list" where
  "sortBy cmp xs = foldr (insertSorted cmp) xs []"

subsection \<open>Maps\<close>

text \<open>
  A \<open>Map\<close> keeps its keys in insertion order: an association list with distinct keys,
  \<open>map_of\<close> for \<open>get\<close>, and \<open>mapSet\<close> for \<open>set\<close> (in place for a present key, at the end
  for a new one).
\<close>

fun mapSet :: "'k \<Rightarrow> 'v \<Rightarrow> ('k \<times> 'v) list \<Rightarrow> ('k \<times> 'v) list" where
  "mapSet k v [] = [(k, v)]"
| "mapSet k v (p # ps) = (if fst p = k then (k, v) # ps else p # mapSet k v ps)"

definition pushTo :: "'k \<Rightarrow> 'v list \<Rightarrow> ('k \<times> 'v list) list \<Rightarrow> ('k \<times> 'v list) list" where
  \<comment> \<open>\<open>if (!m.has(k)) m.set(k, []); m.get(k).push(...vs)\<close>\<close>
  "pushTo k vs m = (case map_of m k of None \<Rightarrow> mapSet k vs m | Some old \<Rightarrow> mapSet k (old @ vs) m)"

subsection \<open>processMessagesData\<close>

text \<open>
  The variables the callback of \<open>data.forEach\<close> computes from a record before it touches
  the maps.  \<open>hasEmptyFrom\<close> is kept because \<open>isFromMe\<close> depends on it.
\<close>

record Fields =
  phone :: string
  contactName :: string
  messageText :: string
  timestamp :: Date
  isFromMe :: bool
  messageId :: "int option"
  isRead :: bool

record AggState =
  contactsMap :: "(string \<times> Contact) list"
  messagesByContact :: "(string \<times> Message list) list"
  searchableData :: "(string \<times> string list) list"
  lastContactKey :: "string option"

definition initialState :: AggState where
  "initialState = \<lparr>contactsMap = [], messagesByContact = [], searchableData = [], lastContactKey = None\<rparr>"

text \<open>
  The first half of the callback: \<open>None\<close> is an early \<open>return\<close>.  The unified branch
  needs the state for the carry-over of the last contact.
\<close>

definition extractData :: "Platform \<Rightarrow> nat \<Rightarrow> AggState \<Rightarrow> DataRecord \<Rightarrow> Fields option" where
  "extractData pf i st record =
     (let isCallLogType = (Type record = ''Call Log'');
          isSMS = (Type record = ''SMS Messages'' \<or> Type record = ''Instant Messages'')
      in if \<not> isSMS \<and> \<not> isCallLogType then None
         else
           let partyRaw = trim (Party record);
               hasEmptyFrom = emptyPrefix ''from:'' partyRaw;
               hasEmptyTo = emptyPrefix ''to:'' partyRaw;
               partyInfo = extractPhoneFromParty (Party record)
           in if \<not> isCallLogType \<and> Description record = [] then None
              else
                let who =
                  (case partyInfo of
                     Some (ph, nm) \<Rightarrow> Some (ph, nm)
                   | None \<Rightarrow>
                       if hasEmptyFrom \<or> hasEmptyTo then
                         (case lastContactKey st of
                            None \<Rightarrow> None
                          | Some k \<Rightarrow>
                              if k = [] then None
                              else (case map_of (contactsMap st) k of
                                      None \<Rightarrow> None
                                    | Some existing \<Rightarrow> Some (Contact.phone existing, Contact.name existing)))
                       else if isCallLogType \<and> Party record \<noteq> []
                               \<and> \<not> includesStr (Party record) ''From:''
                               \<and> \<not> includesStr (Party record) ''To:''
                       then Some (Party record, ''Unknown'')
                       else None)
                in case who of
                     None \<Rightarrow> None
                   | Some (ph, nm) \<Rightarrow>
                       Some \<lparr>phone = ph, contactName = nm,
                             messageText = Description record,
                             timestamp = parseNewTimestamp pf i (Timestamp record),
                             isFromMe = (Direction record = ''To'' \<or> hasEmptyFrom),
                             messageId = parseInt pf (ID record),
                             isRead = True\<rparr>)"

definition extractLegacy :: "Platform \<Rightarrow> SMSRecord \<Rightarrow> Fields option" where
  "extractLegacy pf record =
     (if SMSParty.phone (party record) = [] \<or> message record = [] then None
      else Some \<lparr>phone = SMSParty.phone (party record),
                 contactName = (if SMSParty.name (party record) = [] then ''Unknown''
                                else SMSParty.name (party record)),
                 messageText = message record,
                 timestamp = parseLegacyTimestamp pf (SMSRecord.time record),
                 isFromMe = (direction (party record) = ''to''),
                 messageId = Some (id_r record),
                 isRead = (SMSRecord.status record = ''Read'')\<rparr>)"

fun extractFields :: "Platform \<Rightarrow> nat \<Rightarrow> AggState \<Rightarrow> UnifiedRecord \<Rightarrow> Fields option" where
  "extractFields pf i st (Data d) = extractData pf i st d"
| "extractFields pf i st (Legacy r) = extractLegacy pf r"

definition contactKeyOf :: "string \<Rightarrow> string" where
  \<comment> \<open>\<open>normalizedPhone || phone\<close>\<close>
  "contactKeyOf ph = (if normalizePhoneNumber ph \<noteq> [] then normalizePhoneNumber ph else ph)"

definition buildMessage :: "Fields \<Rightarrow> UnifiedRecord \<Rightarrow> Message" where
  "buildMessage f record =
     \<lparr>id_m = messageId f,
      Message.text = messageText f,
      Message.timestamp = Fields.timestamp f,
      Message.isFromMe = Fields.isFromMe f,
      Message.isRead = Fields.isRead f,
      Message.status =
        mapSMSStatusToMessageStatus (Some (if Fields.isRead f then ''Read'' else ''Unread''))
          (Fields.isFromMe f),
      isCallLog = (case record of Data d \<Rightarrow> Type d = ''Call Log'' | Legacy r \<Rightarrow> False)\<rparr>"

fun searchTermsOf :: "UnifiedRecord \<Rightarrow> string list" where
  "searchTermsOf (Data d) =
     (if Party d \<noteq> [] then [Party d] else []) @
     (if Description d \<noteq> [] then [Description d] else [])"
| "searchTermsOf (Legacy r) =
     (if SMSParty.name (party r) \<noteq> [] then [SMSParty.name (party r)] else []) @
     (if SMSParty.phone (party r) \<noteq> [] then [SMSParty.phone (party r)] else []) @
     (if message r \<noteq> [] then [message r] else [])"

definition updateContact :: "Fields \<Rightarrow> Contact \<Rightarrow> Contact" where
  \<comment> \<open>the branch for an existing contact\<close>
  "updateContact f existingContact =
     (let c1 = (if dateGt (Fields.timestamp f) (lastMessageTime existingContact)
                then existingContact\<lparr>lastMessage := messageText f,
                                      lastMessageTime := Fields.timestamp f\<rparr>
                else existingContact);
          c2 = c1\<lparr>messageCount := messageCount c1 + 1\<rparr>
      in if \<not> Fields.isFromMe f \<and> \<not> Fields.isRead f then c2\<lparr>Contact.isRead := False\<rparr> else c2)"

definition newContact :: "Fields \<Rightarrow> Contact" where
  "newContact f =
     \<lparr>Contact.phone = Fields.phone f,
      Contact.name = contactName f,
      normalizedPhone = normalizePhoneNumber (Fields.phone f),
      lastMessage = messageText f,
      lastMessageTime = Fields.timestamp f,
      messageCount = 1,
      Contact.isRead = (if \<not> Fields.isFromMe f then Fields.isRead f else True)\<rparr>"

text \<open>The second half of the callback, from \<open>if (!phone) return\<close> on.\<close>

definition foldFields :: "Fields \<Rightarrow> UnifiedRecord \<Rightarrow> AggState \<Rightarrow> AggState" where
  "foldFields f record st =
     (if Fields.phone f = [] then st
      else
        let contactKey = contactKeyOf (Fields.phone f)
        in \<lparr>contactsMap =
              (case map_of (contactsMap st) contactKey of
                 Some existingContact \<Rightarrow> mapSet contactKey (updateContact f existingContact) (contactsMap st)
               | None \<Rightarrow> mapSet contactKey (newContact f) (contactsMap st)),
            messagesByContact = pushTo contactKey [buildMessage f record] (messagesByContact st),
            searchableData = pushTo contactKey (searchTermsOf record) (searchableData st),
            lastContactKey = Some contactKey\<rparr>)"

definition processRecord :: "Platform \<Rightarrow> nat \<Rightarrow> UnifiedRecord \<Rightarrow> AggState \<Rightarrow> AggState" where
  "processRecord pf i record st =
     (case extractFields pf i st record of None \<Rightarrow> st | Some f \<Rightarrow> foldFields f record st)"

fun forEachRecord :: "Platform \<Rightarrow> nat \<Rightarrow> UnifiedRecord list \<Rightarrow> AggState \<Rightarrow> AggState" where
  \<comment> \<open>\<open>data.forEach\<close>, from index \<open>i\<close> on\<close>
  "forEachRecord pf i [] st = st"
| "forEachRecord pf i (record # rest) st = forEachRecord pf (Suc i) rest (processRecord pf i record st)"

record Processed =
  contacts :: "Contact list"
  messagesByContact :: "(string \<times> Message list) list"
  searchableData :: "(string \<times> string list) list"

definition byTimestamp :: "Message \<Rightarrow> Message \<Rightarrow> int option" where
  "byTimestamp a b = numSub (Message.timestamp a) (Message.timestamp b)"

definition byLastMessageTimeDesc :: "Contact \<Rightarrow> Contact \<Rightarrow> int option" where
  "byLastMessageTimeDesc a b = numSub (lastMessageTime b) (lastMessageTime a)"

definition finish :: "AggState \<Rightarrow> Processed" where
  \<comment> \<open>the two sorts after the loop, and the returned object\<close>
  "finish st =
     \<lparr>contacts = sortBy byLastMessageTimeDesc (map snd (contactsMap st)),
      Processed.messagesByContact = map (\<lambda>(k, ms). (k, sortBy byTimestamp ms)) (AggState.messagesByContact st),
      Processed.searchableData = AggState.searchableData st\<rparr>"

definition processMessagesData :: "Platform \<Rightarrow> UnifiedRecord list \<Rightarrow> Processed" where
  "processMessagesData pf data = finish (forEachRecord pf 0 data initialState)"

definition contactIdOf :: "Contact \<Rightarrow> string" where
  \<comment> \<open>\<open>contact.normalizedPhone || contact.phone\<close>, the key the callers look a contact up by\<close>
  "contactIdOf c = (if normalizedPhone c \<noteq> [] then normalizedPhone c else Contact.phone c)"

subsection \<open>The earlier processMessagesData for legacy records\<close>

text \<open>
  The message built by the earlier version of the file, which reads legacy records only
  and passes the record's own status to the status mapping.
\<close>

definition buildMessageLegacyOnly :: "Platform \<Rightarrow> SMSRecord \<Rightarrow> Message" where
  "buildMessageLegacyOnly pf record =
     (let fromMe = (direction (party record) = ''to'')
      in \<lparr>id_m = Some (id_r record),
          Message.text = message record,
          Message.timestamp = parseLegacyTimestamp pf (SMSRecord.time record),
          Message.isFromMe = fromMe,
          Message.isRead = (SMSRecord.status record = ''Read''),
          Message.status = mapSMSStatusToMessageStatus (Some (SMSRecord.status record)) fromMe,
          isCallLog = False\<rparr>)"

section \<open>Match location in the contact list (ContactList)\<close>

text \<open>
  The ellipsis of the snippets is U+2026, one code unit outside the modelled range.  It is
  represented by the code unit 0x85, which like U+2026 is no whitespace, no line terminator
  and has no case.
\<close>

definition ellipsis :: string where
  "ellipsis = [CHR 0x85]"

record MatchMeta =
  snippet :: string
  messageId :: "int option"

definition snippetAt :: "string \<Rightarrow> nat \<Rightarrow> nat \<Rightarrow> string" where
  \<comment> \<open>the snippet for a match of \<open>qlen\<close> characters at \<open>idx\<close>; \<open>idx - 20\<close> on naturals stops
     at \<open>0\<close> as \<open>Math.max(0, idx - 20)\<close> does\<close>
  "snippetAt txt idx qlen =
     (let start = idx - 20;
          end = min (length txt) (idx + qlen + 20);
          prefix = (if start > 0 then ellipsis else []);
          suffix = (if end < length txt then ellipsis else [])
      in prefix @ slice txt start end @ suffix)"

fun firstMatch :: "string \<Rightarrow> Message list \<Rightarrow> MatchMeta option" where
  \<comment> \<open>the loop \<open>for (const m of messages)\<close> of \<open>processChunk\<close>\<close>
  "firstMatch query [] = None"
| "firstMatch query (m # ms) =
     (if Message.text m = [] then firstMatch query ms
      else (case indexOf (toLowerCase (Message.text m)) query of
              Some idx \<Rightarrow>
                Some \<lparr>snippet = snippetAt (Message.text m) idx (length query), messageId = id_m m\<rparr>
            | None \<Rightarrow> firstMatch query ms))"

definition fallbackMeta :: "Message list \<Rightarrow> MatchMeta option" where
  \<comment> \<open>\<open>if (!found && messages.length > 0)\<close>: the most recent message, when it has text\<close>
  "fallbackMeta messages =
     (if messages = [] then None
      else
        let firstMsg = last messages
        in if Message.text firstMsg = [] then None
           else Some \<lparr>snippet = (if length (Message.text firstMsg) > 60
                                  then slice (Message.text firstMsg) 0 60 @ ellipsis
                                  else Message.text firstMsg),
                      messageId = id_m firstMsg\<rparr>)"

definition matchMetaFor :: "string \<Rightarrow> Message list option \<Rightarrow> MatchMeta option" where
  \<comment> \<open>one iteration of the loop over \<open>filteredContactIds\<close>; \<open>None\<close>: nothing is set\<close>
  "matchMetaFor query messages =
     (case messages of
        None \<Rightarrow> None
      | Some ms \<Rightarrow>
          if ms = [] then None
          else (case firstMatch query ms of Some r \<Rightarrow> Some r | None \<Rightarrow> fallbackMeta ms))"

text \<open>
  The effect that fills \<open>matchMetaByContact\<close>.  The chunks of twenty contacts only
  schedule the work; the map after the last chunk is the fold over all ids.
\<close>

definition computeMatchMeta ::
  "string \<Rightarrow> (string \<times> Message list) list option \<Rightarrow> string list option \<Rightarrow> (string \<times> MatchMeta) list" where
  "computeMatchMeta searchQuery byContact filteredContactIds =
     (let query = toLowerCase (trim searchQuery)
      in case (byContact, filteredContactIds) of
           (Some m, Some ids) \<Rightarrow>
             if query = [] \<or> ids = [] then []
             else foldl (\<lambda>result contactId.
                           case matchMetaFor query (map_of m contactId) of
                             None \<Rightarrow> result
                           | Some meta \<Rightarrow> mapSet contactId meta result) [] ids
         | _ \<Rightarrow> [])"

text \<open>The earlier, synchronous \<open>matchMetaByContact\<close>: the same snippet, no fallback.\<close>

fun firstMatchSync :: "string \<Rightarrow> Message list \<Rightarrow> MatchMeta option" where
  "firstMatchSync query [] = None"
| "firstMatchSync query (m # ms) =
     (case indexOf (toLowerCase (Message.text m)) query of
        Some idx \<Rightarrow>
          Some \<lparr>snippet = snippetAt (Message.text m) idx (length query), messageId = id_m m\<rparr>
      | None \<Rightarrow> firstMatchSync query ms)"

definition matchMetaByContactSync ::
  "string \<Rightarrow> (string \<times> Message list) list option \<Rightarrow> Contact list \<Rightarrow> (string \<times> MatchMeta) list" where
  "matchMetaByContactSync searchQuery byContact filteredContacts =
     (let query = toLowerCase (trim searchQuery)
      in if query = [] then []
         else foldl (\<lambda>result contact.
                       let contactId = contactIdOf contact;
                           messages = (case byContact of
                                         None \<Rightarrow> []
                                       | Some m \<Rightarrow> (case map_of m contactId of None \<Rightarrow> [] | Some ms \<Rightarrow> ms))
                       in case firstMatchSync query messages of
                            None \<Rightarrow> result
                          | Some meta \<Rightarrow> mapSet contactId meta result) [] filteredContacts)"

section \<open>The search index (MessagingApp)\<close>

fun joinLines :: "string list \<Rightarrow> string" where
  \<comment> \<open>\<open>parts.join('\n')\<close>\<close>
  "joinLines [] = []"
| "joinLines [x] = x"
| "joinLines (x # y # zs) = x @ [CHR 0x0A] @ joinLines (y # zs)"

definition searchIndex :: "Processed \<Rightarrow> (string \<times> string) list" where
  "searchIndex out =
     (if contacts out = [] then []
      else foldl (\<lambda>index contact.
             let contactId = contactIdOf contact;
                 messages = (case map_of (Processed.messagesByContact out) contactId of
                               None \<Rightarrow> [] | Some ms \<Rightarrow> ms);
                 searchTerms = (case map_of (Processed.searchableData out) contactId of
                                  None \<Rightarrow> [] | Some ts \<Rightarrow> ts);
                 aggregated = joinLines ([Contact.name contact, Contact.phone contact,
                                          normalizedPhone contact, lastMessage contact]
                                         @ map Message.text messages @ searchTerms)
             in mapSet contactId (toLowerCase aggregated) index) [] (contacts out))"

definition workerSearchIndex :: "(string \<times> string) list \<Rightarrow> SearchIndexItem list" where
  \<comment> \<open>the entries of the map, as the list sent to the worker\<close>
  "workerSearchIndex index =
     map (\<lambda>(cid, txt). \<lparr>contactId = cid, SearchIndexItem.text = txt\<rparr>) index"

section \<open>The folded records, in input order\<close>

text \<open>
  The records the loop does not skip, each with the contact key it is folded under, the
  fields extracted from it and the message built from it.  The statements about the
  result of \<open>processMessagesData\<close> refer to the input through this list.
\<close>

fun accepted ::
  "Platform \<Rightarrow> nat \<Rightarrow> UnifiedRecord list \<Rightarrow> AggState \<Rightarrow> (string \<times> Fields \<times> Message) list" where
  "accepted pf i [] st = []"
| "accepted pf i (record # rest) st =
     (case extractFields pf i st record of
        None \<Rightarrow> accepted pf (Suc i) rest st
      | Some f \<Rightarrow>
          if Fields.phone f = [] then accepted pf (Suc i) rest st
          else (contactKeyOf (Fields.phone f), f, buildMessage f record)
                 # accepted pf (Suc i) rest (foldFields f record st))"

definition acceptedRecords :: "Platform \<Rightarrow> UnifiedRecord list \<Rightarrow> (string \<times> Fields \<times> Message) list" where
  "acceptedRecords pf data = accepted pf 0 data initialState"

definition fieldsOf :: "(string \<times> Fields \<times> Message) list \<Rightarrow> string \<Rightarrow> Fields list" where
  "fieldsOf tr k = map (\<lambda>e. fst (snd e)) (filter (\<lambda>e. fst e = k) tr)"

definition messagesOf :: "(string \<times> Fields \<times> Message) list \<Rightarrow> string \<Rightarrow> Message list" where
  "messagesOf tr k = map (\<lambda>e. snd (snd e)) (filter (\<lambda>e. fst e = k) tr)"

fun contactAfter :: "Contact option \<Rightarrow> Fields list \<Rightarrow> Contact option" where
  \<comment> \<open>the update-or-create step, repeated over the records of one key\<close>
  "contactAfter c [] = c"
| "contactAfter c (f # fs) =
     contactAfter (Some (case c of None \<Rightarrow> newContact f | Some existing \<Rightarrow> updateContact f existing)) fs"

text \<open>The state after the loop, from the initial state.\<close>

definition finalState :: "Platform \<Rightarrow> UnifiedRecord list \<Rightarrow> AggState" where
  "finalState pf data = forEachRecord pf 0 data initialState"


section \<open>Sample input\<close>

text \<open>
  A platform instance for evaluating the model on concrete input.  \<open>sampleDate\<close> accepts
  the two shapes the code builds from well-formed timestamps, \<open>YYYY-MM-DDTHH:MM:SS\<close> and
  \<open>MM/DD/YYYY HH:MM:SS\<close>, and is an Invalid Date on anything else; its time values are
  the digits \<open>YYYYMMDDHHMMSS\<close> read as a number, which orders them as the dates are
  ordered.  \<open>sampleParseInt\<close> reads a string of decimal digits.
\<close>

definition digitsValue :: "string \<Rightarrow> int" where
  "digitsValue s = foldl (\<lambda>acc c. 10 * acc + (int (of_char c) - 48)) 0 s"

definition hasShape :: "string \<Rightarrow> string \<Rightarrow> bool" where
  \<comment> \<open>\<open>d\<close> in the shape stands for a digit, any other character for itself\<close>
  "hasShape shape s =
     (length s = length shape \<and>
      list_all (\<lambda>(p, c). if p = CHR ''d'' then isDigit c else c = p) (zip shape s))"

definition sampleDate :: "string \<Rightarrow> Date" where
  "sampleDate s =
     (if hasShape ''dddd-dd-ddTdd:dd:dd'' s then Some (digitsValue (filter isDigit s))
      else if hasShape ''dd/dd/dddd dd:dd:dd'' s
      then Some (digitsValue (slice s 6 10 @ slice s 0 2 @ slice s 3 5 @ filter isDigit (drop 10 s)))
      else None)"

definition sampleParseInt :: "string \<Rightarrow> int option" where
  "sampleParseInt s = (if s \<noteq> [] \<and> list_all isDigit s then Some (digitsValue s) else None)"

definition samplePlatform :: Platform where
  "samplePlatform =
     \<lparr>DateOfString = sampleDate, DateNow = (\<lambda>i. 20300101000000 + int i), parseInt = sampleParseInt\<rparr>"

definition dataRecord ::
  "string \<Rightarrow> string \<Rightarrow> string \<Rightarrow> string \<Rightarrow> string \<Rightarrow> string \<Rightarrow> DataRecord" where
  "dataRecord i ty dir p ts d =
     \<lparr>ID = i, Type = ty, Direction = dir, Attachments = [], Locations = [],
      Timestamp = ts, Party = p, Description = d, Deleted = []\<rparr>"

definition legacyRecord ::
  "int \<Rightarrow> string \<Rightarrow> string \<Rightarrow> string \<Rightarrow> string \<Rightarrow> string \<Rightarrow> string \<Rightarrow> string \<Rightarrow> SMSRecord" where
  "legacyRecord i dir ph nm d t st msg =
     \<lparr>id_r = i, folder = ''Inbox'',
      party = \<lparr>direction = dir, SMSParty.phone = ph, SMSParty.name = nm\<rparr>,
      SMSRecord.time = \<lparr>date = d, SMSTime.time = t\<rparr>,
      SMSRecord.status = st, message = msg, deleted = None\<rparr>"

text \<open>
  Three unified records of one conversation, the third a continuation row and out of
  order, then two legacy records: an unread incoming one whose local number normalises to
  the same key, and an outgoing one with status \<open>Sent\<close> to another number.
\<close>

definition continuationRow :: DataRecord where
  "continuationRow =
     dataRecord ''3'' ''SMS Messages'' ''From'' ''From: '' ''01/01/2020 10:03:00(UTC+0)'' ''more''"

definition sentRecord :: SMSRecord where
  "sentRecord = legacyRecord 5 ''to'' ''7771234'' [] ''02/01/2020'' ''08:00:00(UTC+0)'' ''Sent'' ''ok''"

definition sampleData :: "UnifiedRecord list" where
  "sampleData =
     [Data (dataRecord ''1'' ''SMS Messages'' ''From'' ''From: +9601234567 Amy'' ''01/01/2020 10:00:00(UTC+0)'' ''hi''),
      Data (dataRecord ''2'' ''SMS Messages'' ''To'' ''To: +9601234567 Amy'' ''01/01/2020 10:05:00(UTC+0)'' ''hello''),
      Data continuationRow,
      Legacy (legacyRecord 4 ''from'' ''1234567'' ''Amy'' ''01/01/2020'' ''09:00:00(UTC+0)'' ''Unread'' ''call me''),
      Legacy sentRecord]"

text \<open>
  Two records of one conversation; the timestamp of the first has no time of day, so that
  \<open>parseNewTimestamp\<close> builds \<open>2014-06-13Tundefined\<close>, which no \<open>Date\<close> constructor
  parses.
\<close>

definition undatedData :: "UnifiedRecord list" where
  "undatedData =
     [Data (dataRecord ''1'' ''SMS Messages'' ''From'' ''From: +9601234567 Amy'' ''13/06/2014'' ''first''),
      Data (dataRecord ''2'' ''SMS Messages'' ''From'' ''From: +9601234567 Amy'' ''14/06/2014 10:00:00(UTC+0)'' ''second'')]"

text \<open>
  Rows that the loop skips: a calendar entry, also as a continuation row, a message
  without text and a message whose party names nobody.  The last row is a call log whose
  party is a name.
\<close>

definition calendarRow :: DataRecord where
  "calendarRow = dataRecord ''10'' ''Calendar'' [] [] ''03/01/2020 12:00:00(UTC+0)'' ''Dentist''"


definition emptyRow :: DataRecord where
  "emptyRow = dataRecord ''12'' ''SMS Messages'' ''From'' ''From: +9601234567 Amy'' ''03/01/2020 12:00:00(UTC+0)'' []"

definition namelessRow :: DataRecord where
  "namelessRow = dataRecord ''13'' ''SMS Messages'' ''From'' ''hello'' ''03/01/2020 12:00:00(UTC+0)'' ''who''"

definition namedCallLog :: DataRecord where
  "namedCallLog = dataRecord ''14'' ''Call Log'' ''From'' ''Alice'' ''03/01/2020 12:00:00(UTC+0)'' []"

text \<open>A call log without description, and a message of a hundred characters.\<close>

definition bareCallLog :: DataRecord where
  "bareCallLog = dataRecord ''20'' ''Call Log'' ''From'' ''9607778787'' ''03/01/2020 12:00:00(UTC+0)'' []"

definition longMessage :: Message where
  "longMessage =
     \<lparr>id_m = Some 7,
      Message.text = replicate 50 CHR ''a'' @ ''World'' @ replicate 45 CHR ''b'',
      Message.timestamp = Some 20200103120000,
      Message.isFromMe = False, Message.isRead = True, Message.status = Read, isCallLog = False\<rparr>"

definition shortMessage :: Message where
  "shortMessage =
     \<lparr>id_m = Some 8, Message.text = ''see you'', Message.timestamp = Some 20200104120000,
      Message.isFromMe = True, Message.isRead = True, Message.status = Read, isCallLog = False\<rparr>"

text \<open>A corpus of two entries for the search worker.\<close>

definition exampleCorpus :: "SearchIndexItem list" where
  "exampleCorpus =
     [\<lparr>contactId = ''9601234567'',
       SearchIndexItem.text = ''John'' @ [CHR 0x0A] @ ''+9601234567'' @ [CHR 0x0A] @ ''Hello World''\<rparr>,
      \<lparr>contactId = ''9607654321'',
       SearchIndexItem.text = ''Amy'' @ [CHR 0x0A] @ ''7654321'' @ [CHR 0x0A] @ ''see you''\<rparr>]"

section \<open>Phone normalisation is idempotent\<close>

lemma isDigit_960: "isDigit CHR ''9''" "isDigit CHR ''6''" "isDigit CHR ''0''"
  by (simp_all add: isDigit_def)

lemma filter_isDigit_drop: "filter isDigit (drop n (filter isDigit s)) = drop n (filter isDigit s)"
  by (rule filter_True) (auto dest: in_set_dropD)

lemma normalizePhoneNumber_digits: "filter isDigit (normalizePhoneNumber p) = normalizePhoneNumber p"
  by (simp add: normalizePhoneNumber_def Let_def isDigit_960 filter_isDigit_drop)

text \<open>
  Claim C9.  Phone normalisation is idempotent: normalising the result of
  \<open>normalizePhoneNumber\<close> again returns it unchanged, for every input string.
\<close>

theorem normalizePhoneNumber_idempotent:
  "normalizePhoneNumber (normalizePhoneNumber p) = normalizePhoneNumber p"
proof (cases "normalizePhoneNumber p = []")
  case True
  show ?thesis unfolding True by (simp add: normalizePhoneNumber_def)
next
  case False
  let ?c = "filter isDigit p"
  have pne: "p \<noteq> []" using False by (auto simp: normalizePhoneNumber_def)
  consider (a) "startsWith ?c ''960''"
    | (b) "\<not> startsWith ?c ''960''" "length ?c = 7"
    | (c) "\<not> startsWith ?c ''960''" "length ?c \<noteq> 7" "startsWith ?c ''0''"
    | (d) "\<not> startsWith ?c ''960''" "length ?c \<noteq> 7" "\<not> startsWith ?c ''0''" "length ?c \<ge> 10"
    | (e) "\<not> startsWith ?c ''960''" "length ?c \<noteq> 7" "\<not> startsWith ?c ''0''" "\<not> length ?c \<ge> 10"
    by blast
  then show ?thesis
  proof cases
    case a
    then have r: "normalizePhoneNumber p = ?c" using pne by (simp add: normalizePhoneNumber_def)
    show ?thesis unfolding r using a False r
      by (simp add: normalizePhoneNumber_def)
  next
    case b
    then have r: "normalizePhoneNumber p = ''960'' @ ?c" using pne
      by (simp add: normalizePhoneNumber_def Let_def list_all_iff)
    show ?thesis unfolding r
      by (simp add: normalizePhoneNumber_def Let_def isDigit_960 startsWith_def)
  next
    case c
    then have r: "normalizePhoneNumber p = ''960'' @ drop 1 ?c" using pne
      by (simp add: normalizePhoneNumber_def Let_def)
    have "filter isDigit (drop 1 ?c) = drop 1 ?c"
      by (rule filter_isDigit_drop)
    then show ?thesis unfolding r
      by (simp add: normalizePhoneNumber_def Let_def isDigit_960 startsWith_def)
  next
    case d
    then have r: "normalizePhoneNumber p = ?c" using pne
      by (simp add: normalizePhoneNumber_def Let_def)
    show ?thesis unfolding r using d
      by (simp add: normalizePhoneNumber_def Let_def)
  next
    case e
    then have r: "normalizePhoneNumber p = ?c" using pne
      by (simp add: normalizePhoneNumber_def Let_def)
    show ?thesis unfolding r using e
      by (simp add: normalizePhoneNumber_def Let_def)
  qed
qed

section \<open>The search worker answers substring queries\<close>

lemma startsWith_iff: "startsWith s p \<longleftrightarrow> (\<exists>suf. s = p @ suf)"
proof
  assume "startsWith s p"
  then have "s = p @ drop (length p) s"
    by (metis append_take_drop_id startsWith_def)
  then show "\<exists>suf. s = p @ suf" ..
next
  assume "\<exists>suf. s = p @ suf"
  then show "startsWith s p" by (auto simp: startsWith_def)
qed

lemma includesStr_iff: "includesStr s q \<longleftrightarrow> (\<exists>pre suf. s = pre @ q @ suf)"
proof (induction s)
  case Nil
  then show ?case by auto
next
  case (Cons c cs)
  show ?case
  proof
    assume "includesStr (c # cs) q"
    then consider "startsWith (c # cs) q" | "includesStr cs q" by auto
    then show "\<exists>pre suf. c # cs = pre @ q @ suf"
    proof cases
      case 1
      then obtain suf where "c # cs = q @ suf" by (auto simp: startsWith_iff)
      then have "c # cs = [] @ q @ suf" by simp
      then show ?thesis by blast
    next
      case 2
      then obtain pre suf where "cs = pre @ q @ suf" using Cons.IH by blast
      then have "c # cs = (c # pre) @ q @ suf" by simp
      then show ?thesis by blast
    qed
  next
    assume "\<exists>pre suf. c # cs = pre @ q @ suf"
    then obtain pre suf where e: "c # cs = pre @ q @ suf" by blast
    show "includesStr (c # cs) q"
    proof (cases pre)
      case Nil
      with e have "startsWith (c # cs) q" by (auto simp: startsWith_iff)
      then show ?thesis by simp
    next
      case (Cons a pre')
      with e have "cs = pre' @ q @ suf" by simp
      then have "includesStr cs q" using Cons.IH by blast
      then show ?thesis by simp
    qed
  qed
qed

lemma scanIndex_filter:
  "scanIndex idx q = map contactId (filter (\<lambda>it. includesStr (SearchIndexItem.text it) q) idx)"
  by (induction idx) simp_all

text \<open>
  Claim C1.  After the worker has been initialised with a corpus, a search whose query is
  non-empty once lowercased and trimmed posts, under the request's id, the contactIds of
  exactly the corpus entries whose lowercased text contains the lowercased, trimmed query
  as a substring (in corpus order); a search whose query is empty or whitespace-only posts
  the empty list, whatever the corpus.  A search never changes the stored index.
\<close>

theorem search_correct:
  fixes corpus prior :: "SearchIndexItem list" and query :: string
  defines "q \<equiv> trim (toLowerCase query)"
  defines "index \<equiv> fst (onmessage prior (Init corpus))"
  shows "\<exists>results. onmessage index (Search i query) = (index, Some (Result i results)) \<and>
           (q \<noteq> [] \<longrightarrow>
              results = map contactId
                 (filter (\<lambda>it. \<exists>pre suf. toLowerCase (SearchIndexItem.text it) = pre @ q @ suf) corpus) \<and>
              set results = {contactId it | it. it \<in> set corpus \<and>
                 (\<exists>pre suf. toLowerCase (SearchIndexItem.text it) = pre @ q @ suf)}) \<and>
           (q = [] \<longrightarrow> results = [])"
proof (cases "q = []")
  case True
  then show ?thesis by (simp add: onmessage_def q_def)
next
  case False
  let ?P = "\<lambda>it. \<exists>pre suf. toLowerCase (SearchIndexItem.text it) = pre @ q @ suf"
  have idx: "index = map (\<lambda>it. \<lparr>contactId = contactId it,
                       SearchIndexItem.text = toLowerCase (SearchIndexItem.text it)\<rparr>) corpus"
    by (simp add: index_def onmessage_def)
  have res: "scanIndex index q = map contactId (filter ?P corpus)"
    unfolding idx scanIndex_filter
    by (induction corpus) (simp_all add: includesStr_iff)
  have "onmessage index (Search i query) = (index, Some (Result i (scanIndex index q)))"
    using False by (simp add: onmessage_def q_def)
  moreover have "set (map contactId (filter ?P corpus)) =
      {contactId it | it. it \<in> set corpus \<and> ?P it}"
    by auto
  ultimately show ?thesis using False res by simp
qed

theorem search_correct_witness:
  "trim (toLowerCase ''HELLO'') \<noteq> [] \<and>
   onmessage (fst (onmessage [] (Init exampleCorpus))) (Search 1 ''HELLO'') =
     (fst (onmessage [] (Init exampleCorpus)), Some (Result 1 [''9601234567''])) \<and>
   trim (toLowerCase ''xyz'') \<noteq> [] \<and>
   onmessage (fst (onmessage [] (Init exampleCorpus))) (Search 2 ''xyz'') =
     (fst (onmessage [] (Init exampleCorpus)), Some (Result 2 [])) \<and>
   trim (toLowerCase ''   '') = [] \<and>
   onmessage (fst (onmessage [] (Init exampleCorpus))) (Search 3 ''   '') =
     (fst (onmessage [] (Init exampleCorpus)), Some (Result 3 []))"
proof -
  let ?idx = "fst (onmessage [] (Init exampleCorpus))"
  have q1: "trim (toLowerCase ''HELLO'') = ''hello''" by code_simp
  have q2: "trim (toLowerCase ''xyz'') = ''xyz''" by code_simp
  have q3: "trim (toLowerCase ''   '') = []" by code_simp
  have f1: "map contactId (filter (\<lambda>it. includesStr (toLowerCase (SearchIndexItem.text it)) ''hello'') exampleCorpus)
              = [''9601234567'']" by code_simp
  have f2: "map contactId (filter (\<lambda>it. includesStr (toLowerCase (SearchIndexItem.text it)) ''xyz'') exampleCorpus)
              = []" by code_simp
  from search_correct [where prior = "[]" and corpus = exampleCorpus and query = "''HELLO''" and i = 1]
  have r1: "onmessage ?idx (Search 1 ''HELLO'') = (?idx, Some (Result 1 [''9601234567'']))"
    unfolding q1 using f1 by (auto simp: includesStr_iff)
  from search_correct [where prior = "[]" and corpus = exampleCorpus and query = "''xyz''" and i = 2]
  have r2: "onmessage ?idx (Search 2 ''xyz'') = (?idx, Some (Result 2 []))"
    unfolding q2 using f2 by (auto simp: includesStr_iff)
  from search_correct [where prior = "[]" and corpus = exampleCorpus and query = "''   ''" and i = 3]
  have r3: "onmessage ?idx (Search 3 ''   '') = (?idx, Some (Result 3 []))"
    unfolding q3 by auto
  show ?thesis using r1 r2 r3 q1 q2 q3 by simp
qed

section \<open>The aggregation, step by step\<close>

subsection \<open>The state as a function of the folded records\<close>

lemma map_of_mapSet: "map_of (mapSet k v m) = (map_of m)(k \<mapsto> v)"
  by (induction m) (auto simp: fun_eq_iff)

lemma keys_mapSet:
  "map fst (mapSet k v m) = (if k \<in> set (map fst m) then map fst m else map fst m @ [k])"
  by (induction m) auto

lemma distinct_mapSet: "distinct (map fst m) \<Longrightarrow> distinct (map fst (mapSet k v m))"
  by (simp add: keys_mapSet)

lemma map_of_pushTo:
  "map_of (pushTo k vs m) =
     (map_of m)(k \<mapsto> (case map_of m k of None \<Rightarrow> [] | Some old \<Rightarrow> old) @ vs)"
  by (simp add: pushTo_def map_of_mapSet split: option.splits)

lemma keys_pushTo:
  "map fst (pushTo k vs m) = (if k \<in> set (map fst m) then map fst m else map fst m @ [k])"
  by (simp add: pushTo_def keys_mapSet split: option.splits)

lemma processRecord_step:
  "processRecord pf i r st =
     (case extractFields pf i st r of
        None \<Rightarrow> st
      | Some f \<Rightarrow> if Fields.phone f = [] then st else foldFields f r st)"
  by (simp add: processRecord_def foldFields_def split: option.splits)

lemma contactsMap_foldFields:
  "Fields.phone f \<noteq> [] \<Longrightarrow>
   map_of (contactsMap (foldFields f r st)) =
     (map_of (contactsMap st))(contactKeyOf (Fields.phone f) \<mapsto>
        (case map_of (contactsMap st) (contactKeyOf (Fields.phone f)) of
           None \<Rightarrow> newContact f | Some c \<Rightarrow> updateContact f c))"
  by (simp add: foldFields_def Let_def map_of_mapSet split: option.splits)

lemma messages_foldFields:
  "Fields.phone f \<noteq> [] \<Longrightarrow>
   map_of (AggState.messagesByContact (foldFields f r st)) =
     (map_of (AggState.messagesByContact st))(contactKeyOf (Fields.phone f) \<mapsto>
        (case map_of (AggState.messagesByContact st) (contactKeyOf (Fields.phone f)) of
           None \<Rightarrow> [] | Some old \<Rightarrow> old) @ [buildMessage f r])"
  by (simp add: foldFields_def Let_def map_of_pushTo)

lemma contactAfter_append: "contactAfter c (fs @ gs) = contactAfter (contactAfter c fs) gs"
  by (induction fs arbitrary: c) simp_all

lemma contacts_forEach:
  "map_of (contactsMap (forEachRecord pf i rs st)) k =
     contactAfter (map_of (contactsMap st) k) (fieldsOf (accepted pf i rs st) k)"
proof (induction rs arbitrary: i st)
  case Nil
  then show ?case by (simp add: fieldsOf_def)
next
  case (Cons r rs)
  show ?case
  proof (cases "extractFields pf i st r")
    case None
    then show ?thesis using Cons.IH [of "Suc i" st] by (simp add: processRecord_step)
  next
    case (Some f)
    show ?thesis
    proof (cases "Fields.phone f = []")
      case True
      then show ?thesis using Some Cons.IH [of "Suc i" st] by (simp add: processRecord_step)
    next
      case False
      then show ?thesis using Some Cons.IH [of "Suc i" "foldFields f r st"]
        by (simp add: processRecord_step fieldsOf_def contactsMap_foldFields split: option.splits)
    qed
  qed
qed

lemma messages_forEach:
  "map_of (AggState.messagesByContact (forEachRecord pf i rs st)) k =
     (if messagesOf (accepted pf i rs st) k = [] then map_of (AggState.messagesByContact st) k
      else Some ((case map_of (AggState.messagesByContact st) k of None \<Rightarrow> [] | Some old \<Rightarrow> old)
                 @ messagesOf (accepted pf i rs st) k))"
proof (induction rs arbitrary: i st)
  case Nil
  then show ?case by (simp add: messagesOf_def)
next
  case (Cons r rs)
  show ?case
  proof (cases "extractFields pf i st r")
    case None
    then show ?thesis using Cons.IH [of "Suc i" st] by (simp add: processRecord_step)
  next
    case (Some f)
    show ?thesis
    proof (cases "Fields.phone f = []")
      case True
      then show ?thesis using Some Cons.IH [of "Suc i" st] by (simp add: processRecord_step)
    next
      case False
      then show ?thesis using Some Cons.IH [of "Suc i" "foldFields f r st"]
        by (simp add: processRecord_step messagesOf_def messages_foldFields split: option.splits)
    qed
  qed
qed


lemma accepted_entries:
  "(k, f, m) \<in> set (accepted pf i rs st) \<Longrightarrow>
     k = contactKeyOf (Fields.phone f) \<and> Fields.phone f \<noteq> [] \<and>
     (\<exists>r. m = buildMessage f r)"
proof (induction rs arbitrary: i st)
  case Nil
  then show ?case by simp
next
  case (Cons r rs)
  then show ?case
    by (auto split: option.splits if_splits)
qed

lemma buildMessage_fields:
  "Message.timestamp (buildMessage f r) = Fields.timestamp f"
  "Message.text (buildMessage f r) = messageText f"
  "Message.isFromMe (buildMessage f r) = Fields.isFromMe f"
  "Message.isRead (buildMessage f r) = Fields.isRead f"
  "id_m (buildMessage f r) = Fields.messageId f"
  by (simp_all add: buildMessage_def)

lemma messagesOf_timestamps:
  "map Message.timestamp (messagesOf (accepted pf i rs st) k) =
   map Fields.timestamp (fieldsOf (accepted pf i rs st) k)"
proof -
  have "Message.timestamp (snd (snd e)) = Fields.timestamp (fst (snd e))"
    if "e \<in> set (accepted pf i rs st)" for e
  proof -
    obtain k f m where e: "e = (k, f, m)" by (cases e) auto
    with that accepted_entries [of k f m pf i rs st] obtain r where "m = buildMessage f r" by auto
    then show ?thesis using e by (simp add: buildMessage_fields)
  qed
  then have "\<forall>e \<in> set (accepted pf i rs st). Message.timestamp (snd (snd e)) = Fields.timestamp (fst (snd e))"
    by blast
  then show ?thesis
    unfolding messagesOf_def fieldsOf_def by (induction "accepted pf i rs st") auto
qed

lemma length_messagesOf: "length (messagesOf tr k) = length (fieldsOf tr k)"
  by (simp add: messagesOf_def fieldsOf_def)

lemma contactAfter_Some: "\<exists>c'. contactAfter (Some c) fs = Some c'"
  by (induction fs arbitrary: c) simp_all

lemma contactAfter_None_iff: "contactAfter c fs = None \<longleftrightarrow> c = None \<and> fs = []"
proof (cases fs)
  case Nil
  then show ?thesis by simp
next
  case (Cons f fs')
  then show ?thesis using contactAfter_Some by (cases c) (simp, metis contactAfter.simps(2) option.distinct(1))
qed

lemma updateContact_fixed:
  "Contact.phone (updateContact f c) = Contact.phone c"
  "Contact.name (updateContact f c) = Contact.name c"
  "normalizedPhone (updateContact f c) = normalizedPhone c"
  "messageCount (updateContact f c) = messageCount c + 1"
  "Contact.isRead (updateContact f c) = (Contact.isRead c \<and> (Fields.isFromMe f \<or> Fields.isRead f))"
  by (auto simp: updateContact_def Let_def)

lemma updateContact_last:
  "lastMessageTime (updateContact f c) =
     (if dateGt (Fields.timestamp f) (lastMessageTime c) then Fields.timestamp f else lastMessageTime c)"
  "lastMessage (updateContact f c) =
     (if dateGt (Fields.timestamp f) (lastMessageTime c) then messageText f else lastMessage c)"
  by (auto simp: updateContact_def Let_def)

lemma contactAfter_existing:
  "contactAfter (Some c) fs = Some c' \<Longrightarrow>
     Contact.phone c' = Contact.phone c \<and> Contact.name c' = Contact.name c \<and>
     normalizedPhone c' = normalizedPhone c \<and>
     messageCount c' = messageCount c + length fs \<and>
     (Contact.isRead c' \<longleftrightarrow> Contact.isRead c \<and> (\<forall>f \<in> set fs. Fields.isFromMe f \<or> Fields.isRead f))"
proof (induction fs arbitrary: c)
  case Nil
  then show ?case by simp
next
  case (Cons f fs)
  from Cons.prems have "contactAfter (Some (updateContact f c)) fs = Some c'" by simp
  from Cons.IH [OF this] show ?case by (auto simp: updateContact_fixed)
qed

lemma newContact_fields:
  "Contact.phone (newContact f) = Fields.phone f"
  "Contact.name (newContact f) = contactName f"
  "normalizedPhone (newContact f) = normalizePhoneNumber (Fields.phone f)"
  "messageCount (newContact f) = 1"
  "Contact.isRead (newContact f) = (Fields.isFromMe f \<or> Fields.isRead f)"
  "lastMessageTime (newContact f) = Fields.timestamp f"
  "lastMessage (newContact f) = messageText f"
  by (auto simp: newContact_def)

lemma contactAfter_new:
  "contactAfter None (f # fs) = Some c' \<Longrightarrow>
     Contact.phone c' = Fields.phone f \<and> Contact.name c' = contactName f \<and>
     normalizedPhone c' = normalizePhoneNumber (Fields.phone f) \<and>
     messageCount c' = length (f # fs) \<and>
     (Contact.isRead c' \<longleftrightarrow> (\<forall>g \<in> set (f # fs). Fields.isFromMe g \<or> Fields.isRead g))"
  using contactAfter_existing [of "newContact f" fs c'] by (auto simp: newContact_fields)

lemma contactIdOf_new: "contactIdOf (newContact f) = contactKeyOf (Fields.phone f)"
  by (simp add: contactIdOf_def contactKeyOf_def newContact_fields)


lemma dateGt_Some: "dateGt (Some x) (Some y) \<longleftrightarrow> x > y"
  by (simp add: dateGt_def)

lemma contactAfter_lastTime:
  "contactAfter (Some c) fs = Some c' \<Longrightarrow> lastMessageTime c = Some t \<Longrightarrow>
   \<forall>f \<in> set fs. Fields.timestamp f \<noteq> None \<Longrightarrow>
   \<exists>v. lastMessageTime c' = Some v \<and>
       (v = t \<or> Some v \<in> Fields.timestamp ` set fs) \<and> t \<le> v \<and>
       (\<forall>f \<in> set fs. \<forall>x. Fields.timestamp f = Some x \<longrightarrow> x \<le> v)"
proof (induction fs arbitrary: c t)
  case Nil
  then show ?case by simp
next
  case (Cons f fs)
  from Cons.prems(3) obtain x where x: "Fields.timestamp f = Some x" by auto
  let ?c = "updateContact f c"
  have ca: "contactAfter (Some ?c) fs = Some c'" using Cons.prems(1) by simp
  have lt: "lastMessageTime ?c = Some (max x t)"
    using x Cons.prems(2) by (auto simp: updateContact_last dateGt_Some)
  from Cons.IH [OF ca lt] Cons.prems(3) obtain v where
    v: "lastMessageTime c' = Some v" "v = max x t \<or> Some v \<in> Fields.timestamp ` set fs"
       "max x t \<le> v" "\<forall>f \<in> set fs. \<forall>x. Fields.timestamp f = Some x \<longrightarrow> x \<le> v"
    by auto
  show ?case
  proof (intro exI conjI)
    show "lastMessageTime c' = Some v" by (rule v(1))
    show "v = t \<or> Some v \<in> Fields.timestamp ` set (f # fs)"
      using v(2) x by (auto simp: max_def split: if_splits)
    show "t \<le> v" using v(3) by simp
    show "\<forall>g \<in> set (f # fs). \<forall>y. Fields.timestamp g = Some y \<longrightarrow> y \<le> v"
      using v(3,4) x by auto
  qed
qed

lemma contactAfter_new_lastTime:
  assumes "contactAfter None (f # fs) = Some c'"
    and "\<forall>g \<in> set (f # fs). Fields.timestamp g \<noteq> None"
  shows "\<exists>v. lastMessageTime c' = Some v \<and> Some v \<in> Fields.timestamp ` set (f # fs) \<and>
       (\<forall>g \<in> set (f # fs). \<forall>x. Fields.timestamp g = Some x \<longrightarrow> x \<le> v)"
proof -
  from assms(2) obtain t where t: "Fields.timestamp f = Some t" by auto
  have ca: "contactAfter (Some (newContact f)) fs = Some c'" using assms(1) by simp
  have lt: "lastMessageTime (newContact f) = Some t" using t by (simp add: newContact_fields)
  from contactAfter_lastTime [OF ca lt] assms(2) obtain v where
    v: "lastMessageTime c' = Some v" "v = t \<or> Some v \<in> Fields.timestamp ` set fs" "t \<le> v"
       "\<forall>f \<in> set fs. \<forall>x. Fields.timestamp f = Some x \<longrightarrow> x \<le> v"
    by auto
  show ?thesis
  proof (intro exI conjI)
    show "lastMessageTime c' = Some v" by (rule v(1))
    show "Some v \<in> Fields.timestamp ` set (f # fs)" using v(2) t by force
    show "\<forall>g \<in> set (f # fs). \<forall>x. Fields.timestamp g = Some x \<longrightarrow> x \<le> v"
      using v(3,4) t by auto
  qed
qed

text \<open>The pair of \<open>lastMessageTime\<close> and \<open>lastMessage\<close> is always the one of a folded record.\<close>

lemma contactAfter_lastPair:
  "contactAfter (Some c) fs = Some c' \<Longrightarrow>
   (lastMessageTime c', lastMessage c') = (lastMessageTime c, lastMessage c) \<or>
   (lastMessageTime c', lastMessage c') \<in> (\<lambda>f. (Fields.timestamp f, messageText f)) ` set fs"
proof (induction fs arbitrary: c)
  case Nil
  then show ?case by simp
next
  case (Cons f fs)
  from Cons.prems have "contactAfter (Some (updateContact f c)) fs = Some c'" by simp
  from Cons.IH [OF this] show ?case
    by (auto simp: updateContact_last split: if_splits)
qed

lemma contactAfter_new_lastPair:
  "contactAfter None (f # fs) = Some c' \<Longrightarrow>
   (lastMessageTime c', lastMessage c') \<in> (\<lambda>f. (Fields.timestamp f, messageText f)) ` set (f # fs)"
  using contactAfter_lastPair [of "newContact f" fs c'] by (auto simp: newContact_fields)

subsection \<open>Sorting\<close>

lemma set_insertSorted: "set (insertSorted cmp x ys) = insert x (set ys)"
  by (induction ys) auto

lemma set_sortBy: "set (sortBy cmp xs) = set xs"
  unfolding sortBy_def by (induction xs) (simp_all add: set_insertSorted)

lemma filter_length_insertSorted:
  "length (filter P (insertSorted cmp x ys)) = length (filter P (x # ys))"
  by (induction ys) auto

lemma filter_length_sortBy: "length (filter P (sortBy cmp xs)) = length (filter P xs)"
  unfolding sortBy_def by (induction xs) (simp_all add: filter_length_insertSorted)

lemma length_sortBy: "length (sortBy cmp xs) = length xs"
  using filter_length_sortBy [of "\<lambda>_. True" cmp xs] by simp

lemma insertSorted_insort:
  assumes "\<forall>y \<in> set ys. cmp x y = Some (key x - key y)"
  shows "insertSorted cmp x ys = insort_key key x ys"
  using assms by (induction ys) (auto simp: notAfter_def)

lemma sortBy_sort_key:
  assumes "\<forall>x \<in> set xs. \<forall>y \<in> set xs. cmp x y = Some (key x - key y)"
  shows "sortBy cmp xs = sort_key key xs"
  using assms
proof (induction xs)
  case Nil
  then show ?case by (simp add: sortBy_def)
next
  case (Cons x xs)
  then have IH: "sortBy cmp xs = sort_key key xs" by auto
  have "\<forall>y \<in> set (sort_key key xs). cmp x y = Some (key x - key y)"
    using Cons.prems by auto
  then have "insertSorted cmp x (sort_key key xs) = insort_key key x (sort_key key xs)"
    by (rule insertSorted_insort [where cmp = cmp and key = key])
  then show ?case
    using IH by (simp add: sortBy_def)
qed

lemma byTimestamp_valid:
  "Message.timestamp a \<noteq> None \<Longrightarrow> Message.timestamp b \<noteq> None \<Longrightarrow>
   byTimestamp a b = Some (the (Message.timestamp a) - the (Message.timestamp b))"
  by (auto simp: byTimestamp_def numSub_def)

lemma sortBy_byTimestamp:
  assumes "\<forall>m \<in> set ms. Message.timestamp m \<noteq> None"
  shows "sortBy byTimestamp ms = sort_key (\<lambda>m. the (Message.timestamp m)) ms"
  by (rule sortBy_sort_key) (use assms byTimestamp_valid in blast)


subsection \<open>Keys and the final state\<close>

lemma keys_contacts_foldFields:
  "Fields.phone f \<noteq> [] \<Longrightarrow>
   map fst (contactsMap (foldFields f r st)) =
     (if contactKeyOf (Fields.phone f) \<in> set (map fst (contactsMap st)) then map fst (contactsMap st)
      else map fst (contactsMap st) @ [contactKeyOf (Fields.phone f)])"
  by (simp add: foldFields_def Let_def keys_mapSet split: option.splits)

lemma keys_messages_foldFields:
  "Fields.phone f \<noteq> [] \<Longrightarrow>
   map fst (AggState.messagesByContact (foldFields f r st)) =
     (if contactKeyOf (Fields.phone f) \<in> set (map fst (AggState.messagesByContact st))
      then map fst (AggState.messagesByContact st)
      else map fst (AggState.messagesByContact st) @ [contactKeyOf (Fields.phone f)])"
  by (simp add: foldFields_def Let_def keys_pushTo)

lemma keys_forEach:
  "distinct (map fst (contactsMap st)) \<Longrightarrow>
   map fst (AggState.messagesByContact st) = map fst (contactsMap st) \<Longrightarrow>
   distinct (map fst (contactsMap (forEachRecord pf i rs st))) \<and>
   map fst (AggState.messagesByContact (forEachRecord pf i rs st)) =
     map fst (contactsMap (forEachRecord pf i rs st))"
proof (induction rs arbitrary: i st)
  case Nil
  then show ?case by simp
next
  case (Cons r rs)
  have "distinct (map fst (contactsMap (processRecord pf i r st))) \<and>
        map fst (AggState.messagesByContact (processRecord pf i r st)) =
        map fst (contactsMap (processRecord pf i r st))"
    using Cons.prems
    by (auto simp: processRecord_step keys_contacts_foldFields keys_messages_foldFields
             split: option.splits)
  then show ?case using Cons.IH by simp
qed

lemma distinct_map_insertSorted:
  "distinct (map g (insertSorted cmp x ys)) \<longleftrightarrow> distinct (map g (x # ys))"
  by (induction ys) (auto simp: set_insertSorted)

lemma distinct_map_sortBy: "distinct (map g (sortBy cmp xs)) \<longleftrightarrow> distinct (map g xs)"
  unfolding sortBy_def
  by (induction xs) (simp_all add: distinct_map_insertSorted set_sortBy [unfolded sortBy_def])

lemma filter_distinct_single:
  "distinct (map g xs) \<Longrightarrow> x \<in> set xs \<Longrightarrow> filter (\<lambda>y. g y = g x) xs = [x]"
proof (induction xs)
  case Nil
  then show ?case by simp
next
  case (Cons a xs)
  show ?case
  proof (cases "a = x")
    case True
    have "filter (\<lambda>y. g y = g x) xs = []"
      using Cons.prems(1) True by (force simp: filter_empty_conv image_iff)
    then show ?thesis using True by simp
  next
    case False
    then have "x \<in> set xs" using Cons.prems(2) by simp
    moreover have "g a \<noteq> g x" using Cons.prems(1) \<open>x \<in> set xs\<close> by auto
    ultimately show ?thesis using Cons by simp
  qed
qed

lemma final_contacts:
  "map_of (contactsMap (finalState pf data)) k = contactAfter None (fieldsOf (acceptedRecords pf data) k)"
  using contacts_forEach [of pf 0 data initialState k]
  by (simp add: finalState_def acceptedRecords_def initialState_def)

lemma final_messages:
  "map_of (AggState.messagesByContact (finalState pf data)) k =
     (if messagesOf (acceptedRecords pf data) k = [] then None
      else Some (messagesOf (acceptedRecords pf data) k))"
  using messages_forEach [of pf 0 data initialState k]
  by (simp add: finalState_def acceptedRecords_def initialState_def)

lemma final_keys:
  "distinct (map fst (contactsMap (finalState pf data)))"
  "map fst (AggState.messagesByContact (finalState pf data)) = map fst (contactsMap (finalState pf data))"
  using keys_forEach [of initialState pf 0 data]
  by (simp_all add: finalState_def initialState_def)

lemma fieldsOf_key:
  "f \<in> set (fieldsOf (accepted pf i rs st) k) \<Longrightarrow> contactKeyOf (Fields.phone f) = k \<and> Fields.phone f \<noteq> []"
  using accepted_entries [of _ f _ pf i rs st] by (auto simp: fieldsOf_def)

lemma final_contact_cases:
  assumes "map_of (contactsMap (finalState pf data)) k = Some c"
  obtains f fs where "fieldsOf (acceptedRecords pf data) k = f # fs"
    "contactAfter None (f # fs) = Some c" "contactKeyOf (Fields.phone f) = k" "Fields.phone f \<noteq> []"
proof -
  from assms have ca: "contactAfter None (fieldsOf (acceptedRecords pf data) k) = Some c"
    by (simp add: final_contacts)
  then obtain f fs where ff: "fieldsOf (acceptedRecords pf data) k = f # fs"
    by (cases "fieldsOf (acceptedRecords pf data) k") auto
  then have "f \<in> set (fieldsOf (accepted pf 0 data initialState) k)"
    by (simp add: acceptedRecords_def)
  from fieldsOf_key [OF this] that ff ca show ?thesis by simp
qed

lemma final_contactId:
  assumes "(k, c) \<in> set (contactsMap (finalState pf data))"
  shows "contactIdOf c = k"
proof -
  from assms final_keys(1) have "map_of (contactsMap (finalState pf data)) k = Some c" by simp
  then obtain f fs where "contactAfter None (f # fs) = Some c" "contactKeyOf (Fields.phone f) = k"
    by (rule final_contact_cases)
  then show ?thesis using contactAfter_new [of f fs c]
    by (auto simp: contactIdOf_def contactKeyOf_def split: if_splits)
qed

lemma final_contactIds:
  "map contactIdOf (map snd (contactsMap (finalState pf data))) = map fst (contactsMap (finalState pf data))"
  using final_contactId [of _ _ pf data] by (auto simp: comp_def)


subsection \<open>The returned object\<close>

lemma out_contacts:
  "contacts (processMessagesData pf data) =
     sortBy byLastMessageTimeDesc (map snd (contactsMap (finalState pf data)))"
  by (simp add: processMessagesData_def finish_def finalState_def)

lemma out_messages_keys:
  "map fst (Processed.messagesByContact (processMessagesData pf data)) =
     map fst (AggState.messagesByContact (finalState pf data))"
  by (simp add: processMessagesData_def finish_def finalState_def comp_def case_prod_unfold)

lemma out_messages:
  "map_of (Processed.messagesByContact (processMessagesData pf data)) k =
     (if messagesOf (acceptedRecords pf data) k = [] then None
      else Some (sortBy byTimestamp (messagesOf (acceptedRecords pf data) k)))"
proof -
  have "map_of (Processed.messagesByContact (processMessagesData pf data)) k =
        map_option (sortBy byTimestamp) (map_of (AggState.messagesByContact (finalState pf data)) k)"
    by (simp add: processMessagesData_def finish_def finalState_def map_of_map)
  then show ?thesis by (simp add: final_messages)
qed

lemma out_contactIds:
  "distinct (map contactIdOf (contacts (processMessagesData pf data)))"
  "set (map contactIdOf (contacts (processMessagesData pf data))) =
     set (map fst (contactsMap (finalState pf data)))"
proof -
  have d: "distinct (map contactIdOf (map snd (contactsMap (finalState pf data))))"
    using final_keys(1) [of pf data] by (simp only: final_contactIds)
  show "distinct (map contactIdOf (contacts (processMessagesData pf data)))"
    unfolding out_contacts distinct_map_sortBy using d by simp
  have "set (map contactIdOf (contacts (processMessagesData pf data))) =
        contactIdOf ` set (map snd (contactsMap (finalState pf data)))"
    unfolding out_contacts by (simp add: set_sortBy)
  also have "\<dots> = set (map contactIdOf (map snd (contactsMap (finalState pf data))))"
    by (simp only: set_map)
  also have "\<dots> = set (map fst (contactsMap (finalState pf data)))"
    by (simp only: final_contactIds)
  finally show "set (map contactIdOf (contacts (processMessagesData pf data))) =
     set (map fst (contactsMap (finalState pf data)))" .
qed

lemma out_contact_final:
  assumes "c \<in> set (contacts (processMessagesData pf data))"
  shows "map_of (contactsMap (finalState pf data)) (contactIdOf c) = Some c"
proof -
  from assms have "c \<in> snd ` set (contactsMap (finalState pf data))"
    by (simp add: out_contacts set_sortBy)
  then obtain k where kc: "(k, c) \<in> set (contactsMap (finalState pf data))" by force
  then have "contactIdOf c = k" by (rule final_contactId)
  with kc final_keys(1) [of pf data] show ?thesis by simp
qed

lemma final_contact_out:
  assumes "map_of (contactsMap (finalState pf data)) k = Some c"
  shows "filter (\<lambda>c'. contactIdOf c' = k) (contacts (processMessagesData pf data)) = [c]"
proof -
  from assms have kc: "(k, c) \<in> set (contactsMap (finalState pf data))" by (rule map_of_SomeD)
  then have id: "contactIdOf c = k" by (rule final_contactId)
  from kc have "c \<in> set (contacts (processMessagesData pf data))"
    by (force simp: out_contacts set_sortBy)
  from filter_distinct_single [OF out_contactIds(1) this] id show ?thesis by simp
qed



subsection \<open>Counting the folded records\<close>

lemma accepted_append:
  "accepted pf i (xs @ ys) st =
     accepted pf i xs st @ accepted pf (i + length xs) ys (forEachRecord pf i xs st)"
proof (induction xs arbitrary: i st)
  case Nil
  then show ?case by simp
next
  case (Cons r xs)
  show ?case
    using Cons.IH [of "Suc i"]
    by (simp add: processRecord_step split: option.splits)
qed

lemma acceptedRecords_append:
  "acceptedRecords pf (pre @ post) =
     acceptedRecords pf pre @ accepted pf (length pre) post (finalState pf pre)"
  by (simp add: acceptedRecords_def finalState_def accepted_append)

lemma length_filter_sum:
  assumes "finite S" "g ` set xs \<subseteq> S"
  shows "length (filter P xs) = (\<Sum>v\<in>S. length (filter (\<lambda>x. P x \<and> g x = v) xs))"
  using assms(2)
proof (induction xs)
  case Nil
  then show ?case by simp
next
  case (Cons x xs)
  then have IH: "length (filter P xs) = (\<Sum>v\<in>S. length (filter (\<lambda>x. P x \<and> g x = v) xs))"
    and gx: "g x \<in> S" by auto
  have "(\<Sum>v\<in>S. length (filter (\<lambda>y. P y \<and> g y = v) (x # xs))) =
        (\<Sum>v\<in>S. (if g x = v then (if P x then 1 else 0) else 0) +
                  length (filter (\<lambda>y. P y \<and> g y = v) xs))"
    by (rule sum.cong) auto
  also have "\<dots> = (\<Sum>v\<in>S. if g x = v then (if P x then 1 else 0) else 0) +
                  (\<Sum>v\<in>S. length (filter (\<lambda>y. P y \<and> g y = v) xs))"
    by (rule sum.distrib)
  also have "(\<Sum>v\<in>S. if g x = v then (if P x then 1 else 0) else (0::nat)) = (if P x then 1 else 0)"
    using assms(1) gx by (simp add: sum.delta')
  finally show ?case using IH by simp
qed

lemma final_contact_of_key:
  assumes "(k, f, m) \<in> set (acceptedRecords pf data)"
  obtains c where "map_of (contactsMap (finalState pf data)) k = Some c"
    "messageCount c = length (fieldsOf (acceptedRecords pf data) k)"
    "Contact.isRead c \<longleftrightarrow> (\<forall>g \<in> set (fieldsOf (acceptedRecords pf data) k). Fields.isFromMe g \<or> Fields.isRead g)"
proof -
  from assms have "f \<in> set (fieldsOf (acceptedRecords pf data) k)"
    by (force simp: fieldsOf_def)
  then obtain g gs where gg: "fieldsOf (acceptedRecords pf data) k = g # gs"
    by (cases "fieldsOf (acceptedRecords pf data) k") auto
  obtain c where c: "contactAfter None (g # gs) = Some c"
    using contactAfter_Some [of "newContact g" gs] by auto
  have "map_of (contactsMap (finalState pf data)) k = Some c"
    using c gg by (simp add: final_contacts)
  moreover have "messageCount c = length (fieldsOf (acceptedRecords pf data) k)"
    using contactAfter_new [OF c] gg by simp
  moreover have "Contact.isRead c \<longleftrightarrow>
      (\<forall>g \<in> set (fieldsOf (acceptedRecords pf data) k). Fields.isFromMe g \<or> Fields.isRead g)"
    using contactAfter_new [OF c] gg by simp
  ultimately show ?thesis using that by blast
qed

lemma contactKeyOf_normalized:
  "normalizePhoneNumber p = normalizePhoneNumber q \<Longrightarrow> normalizePhoneNumber p \<noteq> [] \<Longrightarrow>
   contactKeyOf p = contactKeyOf q"
  by (auto simp: contactKeyOf_def)



lemma processRecord_isRead:
  assumes "map_of (contactsMap st) k = Some c"
  shows "\<exists>c'. map_of (contactsMap (processRecord pf i r st)) k = Some c' \<and>
            (Contact.isRead c' \<longrightarrow> Contact.isRead c) \<and>
            ((\<forall>f. extractFields pf i st r = Some f \<longrightarrow> Fields.isFromMe f)
               \<longrightarrow> Contact.isRead c' = Contact.isRead c)"
proof (cases "extractFields pf i st r")
  case None
  then show ?thesis using assms by (simp add: processRecord_step)
next
  case (Some f)
  show ?thesis
  proof (cases "Fields.phone f = []")
    case True
    then show ?thesis using Some assms by (simp add: processRecord_step)
  next
    case False
    then show ?thesis using Some assms
      by (auto simp: processRecord_step contactsMap_foldFields updateContact_fixed)
  qed
qed



subsection \<open>Sorted message lists\<close>

lemma messagesOf_pairs:
  "map (\<lambda>m. (Message.timestamp m, Message.text m)) (messagesOf (accepted pf i rs st) k) =
   map (\<lambda>f. (Fields.timestamp f, messageText f)) (fieldsOf (accepted pf i rs st) k)"
proof -
  have "(Message.timestamp (snd (snd e)), Message.text (snd (snd e))) =
        (Fields.timestamp (fst (snd e)), messageText (fst (snd e)))"
    if "e \<in> set (accepted pf i rs st)" for e
  proof -
    obtain k f m where e: "e = (k, f, m)" by (cases e) auto
    with that accepted_entries [of k f m pf i rs st] obtain r where "m = buildMessage f r" by auto
    then show ?thesis using e by (simp add: buildMessage_fields)
  qed
  then have "\<forall>e \<in> set (accepted pf i rs st).
      (Message.timestamp (snd (snd e)), Message.text (snd (snd e))) =
      (Fields.timestamp (fst (snd e)), messageText (fst (snd e)))"
    by blast
  then show ?thesis
    unfolding messagesOf_def fieldsOf_def by (induction "accepted pf i rs st") auto
qed

lemma sorted_valid:
  assumes "\<forall>m \<in> set ms. Message.timestamp m \<noteq> None"
  shows "sorted (map (\<lambda>m. the (Message.timestamp m)) (sortBy byTimestamp ms))"
    and "filter (\<lambda>m. Message.timestamp m = t) (sortBy byTimestamp ms) =
         filter (\<lambda>m. Message.timestamp m = t) ms"
proof -
  let ?key = "\<lambda>m. the (Message.timestamp m)"
  have eq: "sortBy byTimestamp ms = sort_key ?key ms" using assms by (rule sortBy_byTimestamp)
  show "sorted (map ?key (sortBy byTimestamp ms))" unfolding eq by (rule sorted_sort_key)
  show "filter (\<lambda>m. Message.timestamp m = t) (sortBy byTimestamp ms) =
         filter (\<lambda>m. Message.timestamp m = t) ms"
  proof (cases t)
    case None
    have "filter (\<lambda>m. Message.timestamp m = None) (sortBy byTimestamp ms) = []"
      using assms by (auto simp: filter_empty_conv set_sortBy)
    moreover have "filter (\<lambda>m. Message.timestamp m = None) ms = []"
      using assms by (auto simp: filter_empty_conv)
    ultimately show ?thesis using None by simp
  next
    case (Some v)
    have "filter (\<lambda>m. Message.timestamp m = Some v) (sort_key ?key ms) =
          filter (\<lambda>m. ?key m = v) (sort_key ?key ms)"
      by (rule filter_cong) (use assms in auto)
    also have "\<dots> = filter (\<lambda>m. ?key m = v) ms" by (rule sort_key_stable)
    also have "\<dots> = filter (\<lambda>m. Message.timestamp m = Some v) ms"
      by (rule filter_cong) (use assms in auto)
    finally show ?thesis using Some eq by simp
  qed
qed



subsection \<open>Status of the built message\<close>

lemma mapSMSStatus_table:
  "mapSMSStatusToMessageStatus s False = (if map_option toLowerCase s = Some ''read'' then Read else Delivered)"
  "mapSMSStatusToMessageStatus s True =
     (if map_option toLowerCase s = Some ''sent'' then Delivered
      else if map_option toLowerCase s = Some ''read'' then Read
      else if map_option toLowerCase s \<in> {Some ''unsent'', Some ''failed'', Some ''error''} then Failed
      else Sent)"
  by (simp_all add: mapSMSStatusToMessageStatus_def Let_def)

lemma toLowerCase_Read: "toLowerCase ''Read'' = ''read''" "toLowerCase ''Unread'' = ''unread''"
  by code_simp+

lemma buildMessage_status:
  "Message.status (buildMessage f r) =
     (if Fields.isRead f then Read else if Fields.isFromMe f then Sent else Delivered)"
  by (simp add: buildMessage_def mapSMSStatusToMessageStatus_def Let_def toLowerCase_Read)


lemma extractFields_isRead:
  assumes "extractFields pf i st r = Some f"
  shows "case r of Data d \<Rightarrow> Fields.isRead f
         | Legacy l \<Rightarrow> (Fields.isRead f \<longleftrightarrow> SMSRecord.status l = ''Read'') \<and>
                       (Fields.isFromMe f \<longleftrightarrow> direction (party l) = ''to'')"
proof (cases r)
  case (Legacy l)
  with assms show ?thesis by (auto simp: extractLegacy_def split: if_splits)
next
  case (Data d)
  with assms show ?thesis
    by (auto simp: extractData_def Let_def split: if_splits option.splits)
qed



subsection \<open>Continuation rows have no phone\<close>















subsection \<open>The last contact\<close>







subsection \<open>Match location\<close>

lemma indexOf_None_iff: "indexOf s q = None \<longleftrightarrow> \<not> includesStr s q"
  by (induction s) (auto split: option.splits)

lemma indexOf_Some:
  "indexOf s q = Some i \<Longrightarrow>
     i + length q \<le> length s \<and> take (length q) (drop i s) = q \<and>
     (\<forall>j<i. take (length q) (drop j s) \<noteq> q)"
proof (induction s arbitrary: i)
  case Nil
  then show ?case by (auto split: if_splits)
next
  case (Cons c cs)
  show ?case
  proof (cases "startsWith (c # cs) q")
    case True
    with Cons.prems have i: "i = 0" by simp
    from True obtain suf where "c # cs = q @ suf" unfolding startsWith_iff by blast
    then have "length q \<le> length (c # cs)" by (metis length_append le_add1)
    with True i show ?thesis by (simp add: startsWith_def)
  next
    case False
    with Cons.prems obtain i' where i': "indexOf cs q = Some i'" "i = Suc i'"
      by (auto split: option.splits)
    from Cons.IH [OF i'(1)] have IH: "i' + length q \<le> length cs"
      "take (length q) (drop i' cs) = q" "\<forall>j<i'. take (length q) (drop j cs) \<noteq> q" by auto
    have "take (length q) (drop j (c # cs)) \<noteq> q" if "j < i" for j
    proof (cases j)
      case 0
      then show ?thesis using False by (simp add: startsWith_def)
    next
      case (Suc j')
      then show ?thesis using that IH(3) i'(2) by simp
    qed
    with IH i'(2) show ?thesis by simp
  qed
qed

lemma firstMatch_None:
  "query \<noteq> [] \<Longrightarrow>
   firstMatch query ms = None \<longleftrightarrow> (\<forall>m \<in> set ms. \<not> includesStr (toLowerCase (Message.text m)) query)"
proof (induction ms)
  case Nil
  then show ?case by simp
next
  case (Cons m ms)
  show ?case
  proof (cases "Message.text m = []")
    case True
    then have "\<not> includesStr (toLowerCase (Message.text m)) query"
      using Cons.prems by (simp add: toLowerCase_def)
    with True Cons show ?thesis by simp
  next
    case False
    with Cons show ?thesis
      by (auto simp: indexOf_None_iff [symmetric] split: option.splits)
  qed
qed

lemma firstMatch_Some:
  "query \<noteq> [] \<Longrightarrow> firstMatch query ms = Some r \<Longrightarrow>
   \<exists>pre m post idx. ms = pre @ m # post \<and>
      (\<forall>x \<in> set pre. \<not> includesStr (toLowerCase (Message.text x)) query) \<and>
      indexOf (toLowerCase (Message.text m)) query = Some idx \<and>
      r = \<lparr>snippet = snippetAt (Message.text m) idx (length query), messageId = id_m m\<rparr>"
proof (induction ms)
  case Nil
  then show ?case by simp
next
  case (Cons a ms)
  consider (here) idx where "Message.text a \<noteq> []" "indexOf (toLowerCase (Message.text a)) query = Some idx"
      "r = \<lparr>snippet = snippetAt (Message.text a) idx (length query), messageId = id_m a\<rparr>"
    | (later) "\<not> includesStr (toLowerCase (Message.text a)) query" "firstMatch query ms = Some r"
  proof (cases "Message.text a = []")
    case True
    then have "\<not> includesStr (toLowerCase (Message.text a)) query"
      using Cons.prems(1) by (simp add: toLowerCase_def)
    with True Cons.prems(2) later show ?thesis by simp
  next
    case False
    show ?thesis
    proof (cases "indexOf (toLowerCase (Message.text a)) query")
      case None
      then have "\<not> includesStr (toLowerCase (Message.text a)) query" by (simp add: indexOf_None_iff)
      with None False Cons.prems(2) later show ?thesis by simp
    next
      case (Some idx)
      with False Cons.prems(2) here show ?thesis by auto
    qed
  qed
  then show ?case
  proof cases
    case here
    then have "a # ms = [] @ a # ms \<and>
      (\<forall>x \<in> set []. \<not> includesStr (toLowerCase (Message.text x)) query) \<and>
      indexOf (toLowerCase (Message.text a)) query = Some idx \<and>
      r = \<lparr>snippet = snippetAt (Message.text a) idx (length query), messageId = id_m a\<rparr>"
      by simp
    then show ?thesis by blast
  next
    case later
    from Cons.IH [OF Cons.prems(1) later(2)] obtain pre m post idx where
      "ms = pre @ m # post"
      "\<forall>x \<in> set pre. \<not> includesStr (toLowerCase (Message.text x)) query"
      "indexOf (toLowerCase (Message.text m)) query = Some idx"
      "r = \<lparr>snippet = snippetAt (Message.text m) idx (length query), messageId = id_m m\<rparr>"
      by blast
    with later(1) have "a # ms = (a # pre) @ m # post \<and>
      (\<forall>x \<in> set (a # pre). \<not> includesStr (toLowerCase (Message.text x)) query) \<and>
      indexOf (toLowerCase (Message.text m)) query = Some idx \<and>
      r = \<lparr>snippet = snippetAt (Message.text m) idx (length query), messageId = id_m m\<rparr>"
      by simp
    then show ?thesis by blast
  qed
qed

lemma firstMatchSync_eq: "query \<noteq> [] \<Longrightarrow> firstMatchSync query ms = firstMatch query ms"
proof (induction ms)
  case Nil
  then show ?case by simp
next
  case (Cons m ms)
  show ?case
  proof (cases "Message.text m = []")
    case True
    then have "indexOf (toLowerCase (Message.text m)) query = None"
      using Cons.prems by (simp add: toLowerCase_def)
    with True Cons show ?thesis by simp
  next
    case False
    with Cons show ?thesis by (simp split: option.splits)
  qed
qed

lemma snippetAt_shape:
  assumes "idx + n \<le> length txt"
  shows "snippetAt txt idx n =
     (if 20 < idx then ellipsis else []) @
     take (min 20 idx) (drop (idx - 20) txt) @ take n (drop idx txt) @ take 20 (drop (idx + n) txt) @
     (if idx + n + 20 < length txt then ellipsis else [])"
proof -
  let ?start = "idx - 20"
  let ?end = "min (length txt) (idx + n + 20)"
  let ?e = "?end - (idx + n)"
  have len: "?end - ?start = min 20 idx + (n + ?e)" using assms by auto
  have d1: "drop (min 20 idx) (drop ?start txt) = drop idx txt" by (simp add: min_def)
  have "slice txt ?start ?end = take (min 20 idx + (n + ?e)) (drop ?start txt)"
    by (simp only: slice_def len)
  also have "\<dots> = take (min 20 idx) (drop ?start txt) @ take (n + ?e) (drop idx txt)"
    by (simp only: take_add d1)
  also have "take (n + ?e) (drop idx txt) = take n (drop idx txt) @ take ?e (drop (idx + n) txt)"
    by (simp add: take_add add.commute)
  also have "take ?e (drop (idx + n) txt) = take 20 (drop (idx + n) txt)"
    using assms by (auto simp: min_def)
  finally have s: "slice txt ?start ?end =
      take (min 20 idx) (drop ?start txt) @ take n (drop idx txt) @ take 20 (drop (idx + n) txt)" .
  have "snippetAt txt idx n =
      (if ?start > 0 then ellipsis else []) @ slice txt ?start ?end @
      (if ?end < length txt then ellipsis else [])"
    by (simp add: snippetAt_def Let_def)
  also have "(?start > 0) = (20 < idx)" by auto
  also have "(?end < length txt) = (idx + n + 20 < length txt)" by auto
  finally show ?thesis unfolding s by simp
qed


lemma computeMatchMeta_fold:
  "map_of (foldl (\<lambda>result contactId.
                   case matchMetaFor query (map_of m contactId) of
                     None \<Rightarrow> result
                   | Some meta \<Rightarrow> mapSet contactId meta result) acc ids) k =
     (if k \<in> set ids \<and> matchMetaFor query (map_of m k) \<noteq> None
      then matchMetaFor query (map_of m k) else map_of acc k)"
proof (induction ids arbitrary: acc)
  case Nil
  then show ?case by simp
next
  case (Cons a ids)
  show ?case
    by (simp add: Cons.IH map_of_mapSet split: option.splits) auto
qed

lemma computeMatchMeta_lookup:
  assumes "toLowerCase (trim searchQuery) \<noteq> []"
  shows "map_of (computeMatchMeta searchQuery (Some m) (Some ids)) k =
     (if k \<in> set ids then matchMetaFor (toLowerCase (trim searchQuery)) (map_of m k) else None)"
proof (cases "ids = []")
  case True
  then show ?thesis by (simp add: computeMatchMeta_def Let_def)
next
  case False
  then show ?thesis using assms
    by (simp add: computeMatchMeta_def Let_def computeMatchMeta_fold)
qed



section \<open>The aggregate invariants\<close>

text \<open>
  Claim C10.  When \<open>processMessagesData\<close> returns, the contacts and \<open>messagesByContact\<close>
  have the same keys (each once), and every contact's \<open>messageCount\<close> is the length of
  its message list, which is not empty.
\<close>

theorem contacts_and_messages_agree:
  fixes pf :: Platform and data :: "UnifiedRecord list"
  defines "out \<equiv> processMessagesData pf data"
  shows "set (map contactIdOf (contacts out)) = set (map fst (Processed.messagesByContact out)) \<and>
         distinct (map contactIdOf (contacts out)) \<and>
         distinct (map fst (Processed.messagesByContact out)) \<and>
         (\<forall>c \<in> set (contacts out).
            \<exists>ms. map_of (Processed.messagesByContact out) (contactIdOf c) = Some ms \<and>
                 messageCount c = length ms \<and> ms \<noteq> [])"
proof (intro conjI ballI)
  show "set (map contactIdOf (contacts out)) = set (map fst (Processed.messagesByContact out))"
    unfolding out_def out_contactIds(2) out_messages_keys final_keys(2) ..
  show "distinct (map contactIdOf (contacts out))"
    unfolding out_def by (rule out_contactIds(1))
  show "distinct (map fst (Processed.messagesByContact out))"
    unfolding out_def out_messages_keys final_keys(2) by (rule final_keys(1))
next
  fix c assume "c \<in> set (contacts out)"
  then have fc: "map_of (contactsMap (finalState pf data)) (contactIdOf c) = Some c"
    unfolding out_def by (rule out_contact_final)
  then obtain f fs where ff: "fieldsOf (acceptedRecords pf data) (contactIdOf c) = f # fs"
    and ca: "contactAfter None (f # fs) = Some c"
    by (rule final_contact_cases)
  let ?ms = "messagesOf (acceptedRecords pf data) (contactIdOf c)"
  have len: "length ?ms = length (f # fs)" using ff by (simp add: length_messagesOf)
  then have ne: "?ms \<noteq> []" by auto
  have "map_of (Processed.messagesByContact out) (contactIdOf c) = Some (sortBy byTimestamp ?ms)"
    unfolding out_def using ne by (simp add: out_messages)
  moreover have "messageCount c = length (sortBy byTimestamp ?ms)"
    using contactAfter_new [OF ca] len by (simp add: length_sortBy)
  moreover have "sortBy byTimestamp ?ms \<noteq> []"
    using ne length_sortBy [of byTimestamp ?ms] by auto
  ultimately show "\<exists>ms. map_of (Processed.messagesByContact out) (contactIdOf c) = Some ms \<and>
                 messageCount c = length ms \<and> ms \<noteq> []" by blast
qed

theorem contacts_and_messages_agree_witness:
  "map contactIdOf (contacts (processMessagesData samplePlatform sampleData)) = [''9607771234'', ''9601234567''] \<and>
   map fst (Processed.messagesByContact (processMessagesData samplePlatform sampleData)) = [''9601234567'', ''9607771234''] \<and>
   (\<exists>ms. map_of (Processed.messagesByContact (processMessagesData samplePlatform sampleData))
            (contactIdOf (contacts (processMessagesData samplePlatform sampleData) ! 1)) = Some ms \<and>
         messageCount (contacts (processMessagesData samplePlatform sampleData) ! 1) = length ms \<and>
         ms \<noteq> [])"
proof -
  define out where "out = processMessagesData samplePlatform sampleData"
  have ids: "map contactIdOf (contacts out) = [''9607771234'', ''9601234567'']"
    unfolding out_def by code_simp
  have keys: "map fst (Processed.messagesByContact out) = [''9601234567'', ''9607771234'']"
    unfolding out_def by code_simp
  have "length (map contactIdOf (contacts out)) = 2" by (simp only: ids list.size)
  then have "1 < length (contacts out)" by simp
  then have "contacts out ! 1 \<in> set (contacts out)" by (rule nth_mem)
  with contacts_and_messages_agree [of samplePlatform sampleData]
  have "\<exists>ms. map_of (Processed.messagesByContact out) (contactIdOf (contacts out ! 1)) = Some ms \<and>
         messageCount (contacts out ! 1) = length ms \<and> ms \<noteq> []"
    unfolding out_def by blast
  with ids keys show ?thesis unfolding out_def by blast
qed


text \<open>
  Claim C3.  For every key under which records are folded there is exactly one contact in
  the result, and its \<open>messageCount\<close> is the number of folded records with that key, that
  is, the sum over the raw phone strings of the number of folded records with that phone
  and key.  The key of a folded record is \<open>normalizedPhone || phone\<close> of its phone, so raw
  phones with the same non-empty normalisation share the key.
\<close>

theorem key_collapse:
  fixes pf :: Platform and data :: "UnifiedRecord list"
  defines "out \<equiv> processMessagesData pf data"
  defines "tr \<equiv> acceptedRecords pf data"
  shows "(\<forall>k \<in> fst ` set tr.
           \<exists>c. filter (\<lambda>c'. contactIdOf c' = k) (contacts out) = [c] \<and>
               messageCount c = length (filter (\<lambda>e. fst e = k) tr) \<and>
               messageCount c =
                 (\<Sum>p \<in> (\<lambda>e. Fields.phone (fst (snd e))) ` set tr.
                    length (filter (\<lambda>e. fst e = k \<and> Fields.phone (fst (snd e)) = p) tr))) \<and>
         (\<forall>e \<in> set tr. fst e = contactKeyOf (Fields.phone (fst (snd e)))) \<and>
         (\<forall>p q. normalizePhoneNumber p = normalizePhoneNumber q \<and> normalizePhoneNumber p \<noteq> []
                \<longrightarrow> contactKeyOf p = contactKeyOf q)"
proof (intro conjI ballI allI impI)
  fix k assume "k \<in> fst ` set tr"
  then obtain f m where "(k, f, m) \<in> set (acceptedRecords pf data)"
    unfolding tr_def by force
  then obtain c where c: "map_of (contactsMap (finalState pf data)) k = Some c"
    "messageCount c = length (fieldsOf (acceptedRecords pf data) k)"
    by (rule final_contact_of_key)
  have one: "filter (\<lambda>c'. contactIdOf c' = k) (contacts out) = [c]"
    unfolding out_def using c(1) by (rule final_contact_out)
  have cnt: "messageCount c = length (filter (\<lambda>e. fst e = k) tr)"
    using c(2) by (simp add: fieldsOf_def tr_def)
  have "length (filter (\<lambda>e. fst e = k) tr) =
        (\<Sum>p \<in> (\<lambda>e. Fields.phone (fst (snd e))) ` set tr.
            length (filter (\<lambda>e. fst e = k \<and> Fields.phone (fst (snd e)) = p) tr))"
    by (rule length_filter_sum) auto
  with one cnt show "\<exists>c. filter (\<lambda>c'. contactIdOf c' = k) (contacts out) = [c] \<and>
               messageCount c = length (filter (\<lambda>e. fst e = k) tr) \<and>
               messageCount c =
                 (\<Sum>p \<in> (\<lambda>e. Fields.phone (fst (snd e))) ` set tr.
                    length (filter (\<lambda>e. fst e = k \<and> Fields.phone (fst (snd e)) = p) tr))"
    by auto
next
  fix e assume "e \<in> set tr"
  then have "(fst e, fst (snd e), snd (snd e)) \<in> set (accepted pf 0 data initialState)"
    by (simp add: tr_def acceptedRecords_def)
  from accepted_entries [OF this] show "fst e = contactKeyOf (Fields.phone (fst (snd e)))" by simp
next
  fix p q assume "normalizePhoneNumber p = normalizePhoneNumber q \<and> normalizePhoneNumber p \<noteq> []"
  then show "contactKeyOf p = contactKeyOf q" by (auto simp: contactKeyOf_def)
qed


theorem key_collapse_witness:
  "''9601234567'' \<in> fst ` set (acceptedRecords samplePlatform sampleData) \<and>
   (\<exists>c. filter (\<lambda>c'. contactIdOf c' = ''9601234567'') (contacts (processMessagesData samplePlatform sampleData)) = [c] \<and>
        messageCount c = 4) \<and>
   length (filter (\<lambda>e. fst e = ''9601234567'' \<and> Fields.phone (fst (snd e)) = ''+9601234567'')
            (acceptedRecords samplePlatform sampleData)) = 3 \<and>
   length (filter (\<lambda>e. fst e = ''9601234567'' \<and> Fields.phone (fst (snd e)) = ''1234567'')
            (acceptedRecords samplePlatform sampleData)) = 1 \<and>
   normalizePhoneNumber ''+9601234567'' = normalizePhoneNumber ''1234567''"
proof -
  define out where "out = processMessagesData samplePlatform sampleData"
  define tr where "tr = acceptedRecords samplePlatform sampleData"
  define k where "k = ''9601234567''"
  have mem: "k \<in> fst ` set tr" unfolding k_def tr_def by code_simp
  have n: "length (filter (\<lambda>e. fst e = k) tr) = 4" unfolding k_def tr_def by code_simp
  have a: "length (filter (\<lambda>e. fst e = k \<and> Fields.phone (fst (snd e)) = ''+9601234567'') tr) = 3"
    unfolding k_def tr_def by code_simp
  have b: "length (filter (\<lambda>e. fst e = k \<and> Fields.phone (fst (snd e)) = ''1234567'') tr) = 1"
    unfolding k_def tr_def by code_simp
  have c: "normalizePhoneNumber ''+9601234567'' = normalizePhoneNumber ''1234567''" by code_simp
  from key_collapse [of samplePlatform sampleData] mem
  have "\<exists>c. filter (\<lambda>c'. contactIdOf c' = k) (contacts out) = [c] \<and>
             messageCount c = length (filter (\<lambda>e. fst e = k) tr)"
    unfolding out_def tr_def by blast
  then have "\<exists>c. filter (\<lambda>c'. contactIdOf c' = k) (contacts out) = [c] \<and> messageCount c = 4"
    by (simp only: n)
  with mem a b c show ?thesis unfolding out_def tr_def k_def by blast
qed


text \<open>
  Claim C5.  If an incoming, unread record has been folded under a key, the contact of
  that key has \<open>isRead = false\<close> in the result of every input that extends the one read so
  far.  In one step of the loop no record turns \<open>isRead\<close> of an existing contact from
  false to true, and a record that is skipped or has \<open>isFromMe\<close> leaves \<open>isRead\<close> of every
  existing contact as it is.
\<close>

theorem unread_is_sticky:
  "(\<forall>k f m. (k, f, m) \<in> set (acceptedRecords pf pre) \<and> \<not> Fields.isFromMe f \<and> \<not> Fields.isRead f \<longrightarrow>
      (\<exists>c. filter (\<lambda>c'. contactIdOf c' = k) (contacts (processMessagesData pf (pre @ post))) = [c] \<and>
           \<not> Contact.isRead c)) \<and>
   (\<forall>k c. map_of (contactsMap st) k = Some c \<longrightarrow>
      (\<exists>c'. map_of (contactsMap (processRecord pf i r st)) k = Some c' \<and>
            (Contact.isRead c' \<longrightarrow> Contact.isRead c) \<and>
            ((\<forall>f. extractFields pf i st r = Some f \<longrightarrow> Fields.isFromMe f)
               \<longrightarrow> Contact.isRead c' = Contact.isRead c)))"
proof (intro conjI allI impI)
  fix k f m
  assume a: "(k, f, m) \<in> set (acceptedRecords pf pre) \<and> \<not> Fields.isFromMe f \<and> \<not> Fields.isRead f"
  then have mem: "(k, f, m) \<in> set (acceptedRecords pf (pre @ post))"
    by (simp add: acceptedRecords_append)
  then obtain c where c: "map_of (contactsMap (finalState pf (pre @ post))) k = Some c"
    "Contact.isRead c \<longleftrightarrow>
       (\<forall>g \<in> set (fieldsOf (acceptedRecords pf (pre @ post)) k). Fields.isFromMe g \<or> Fields.isRead g)"
    by (rule final_contact_of_key)
  from mem have "f \<in> set (fieldsOf (acceptedRecords pf (pre @ post)) k)"
    by (force simp: fieldsOf_def)
  with a c(2) have "\<not> Contact.isRead c" by blast
  moreover have "filter (\<lambda>c'. contactIdOf c' = k) (contacts (processMessagesData pf (pre @ post))) = [c]"
    using c(1) by (rule final_contact_out)
  ultimately show "\<exists>c. filter (\<lambda>c'. contactIdOf c' = k) (contacts (processMessagesData pf (pre @ post))) = [c] \<and>
           \<not> Contact.isRead c" by blast
next
  fix k c assume "map_of (contactsMap st) k = Some c"
  then show "\<exists>c'. map_of (contactsMap (processRecord pf i r st)) k = Some c' \<and>
            (Contact.isRead c' \<longrightarrow> Contact.isRead c) \<and>
            ((\<forall>f. extractFields pf i st r = Some f \<longrightarrow> Fields.isFromMe f)
               \<longrightarrow> Contact.isRead c' = Contact.isRead c)"
    by (rule processRecord_isRead)
qed


theorem unread_is_sticky_witness:
  "(\<exists>f m. (''9601234567'', f, m) \<in> set (acceptedRecords samplePlatform (take 4 sampleData)) \<and>
          \<not> Fields.isFromMe f \<and> \<not> Fields.isRead f) \<and>
   (\<exists>c. filter (\<lambda>c'. contactIdOf c' = ''9601234567'')
          (contacts (processMessagesData samplePlatform (take 4 sampleData @ drop 4 sampleData))) = [c] \<and>
        \<not> Contact.isRead c) \<and>
   (\<exists>f. extractFields samplePlatform 1 (finalState samplePlatform (take 1 sampleData)) (sampleData ! 1) = Some f \<and>
        Fields.isFromMe f) \<and>
   (\<exists>c c'. map_of (contactsMap (finalState samplePlatform (take 1 sampleData))) ''9601234567'' = Some c \<and>
        map_of (contactsMap (processRecord samplePlatform 1 (sampleData ! 1)
                 (finalState samplePlatform (take 1 sampleData)))) ''9601234567'' = Some c' \<and>
        Contact.isRead c' = Contact.isRead c)"
proof -
  define pre where "pre = take 4 sampleData"
  define post where "post = drop 4 sampleData"
  define st where "st = finalState samplePlatform (take 1 sampleData)"
  define r where "r = sampleData ! 1"
  define k where "k = ''9601234567''"
  have "\<exists>e \<in> set (acceptedRecords samplePlatform pre).
          fst e = k \<and> \<not> Fields.isFromMe (fst (snd e)) \<and> \<not> Fields.isRead (fst (snd e))"
    unfolding pre_def k_def by code_simp
  then obtain f m where fm: "(k, f, m) \<in> set (acceptedRecords samplePlatform pre)"
    "\<not> Fields.isFromMe f" "\<not> Fields.isRead f"
    by (metis prod.collapse)
  have ex: "map_option Fields.isFromMe (extractFields samplePlatform 1 st r) = Some True"
    unfolding st_def r_def by code_simp
  then obtain g where g: "extractFields samplePlatform 1 st r = Some g" "Fields.isFromMe g"
    by auto
  have "map_of (contactsMap st) k \<noteq> None" unfolding st_def k_def by code_simp
  then obtain c where c: "map_of (contactsMap st) k = Some c" by auto
  note inst = unread_is_sticky [of samplePlatform pre post st 1 r]
  from inst fm have 1: "\<exists>c. filter (\<lambda>c'. contactIdOf c' = k)
          (contacts (processMessagesData samplePlatform (pre @ post))) = [c] \<and> \<not> Contact.isRead c"
    by blast
  from inst c g have 2: "\<exists>c'. map_of (contactsMap (processRecord samplePlatform 1 r st)) k = Some c' \<and>
       Contact.isRead c' = Contact.isRead c"
    by force
  from fm 1 g c 2 show ?thesis
    unfolding pre_def post_def st_def r_def k_def by blast
qed


section \<open>Message order and the newest message\<close>

text \<open>
  Sorting and the newest message of a contact whose messages all have valid timestamps:
  the list is sorted ascending and stably with respect to the input order, and
  \<open>lastMessageTime\<close> is the maximum, with \<open>lastMessage\<close> the text of a message bearing it.
  In \<open>updateContact\<close> the two fields change only for a strictly newer timestamp.
\<close>

theorem sorted_and_newest_when_valid:
  fixes pf :: Platform and data :: "UnifiedRecord list"
  defines "out \<equiv> processMessagesData pf data"
  defines "tr \<equiv> acceptedRecords pf data"
  shows "(\<forall>c \<in> set (contacts out). \<forall>ms.
            map_of (Processed.messagesByContact out) (contactIdOf c) = Some ms \<and>
            (\<forall>m \<in> set ms. Message.timestamp m \<noteq> None) \<longrightarrow>
              sorted (map (\<lambda>m. the (Message.timestamp m)) ms) \<and>
              (\<forall>t. filter (\<lambda>m. Message.timestamp m = t) ms =
                   filter (\<lambda>m. Message.timestamp m = t) (messagesOf tr (contactIdOf c))) \<and>
              lastMessageTime c = Some (Max ((\<lambda>m. the (Message.timestamp m)) ` set ms)) \<and>
              (\<exists>m \<in> set ms. Message.timestamp m = lastMessageTime c \<and> Message.text m = lastMessage c)) \<and>
         (\<forall>f c. lastMessageTime (updateContact f c) =
                  (if dateGt (Fields.timestamp f) (lastMessageTime c) then Fields.timestamp f
                   else lastMessageTime c) \<and>
                lastMessage (updateContact f c) =
                  (if dateGt (Fields.timestamp f) (lastMessageTime c) then messageText f
                   else lastMessage c))"
proof (intro conjI ballI allI impI)
  fix c ms
  assume cin: "c \<in> set (contacts out)"
    and h: "map_of (Processed.messagesByContact out) (contactIdOf c) = Some ms \<and>
            (\<forall>m \<in> set ms. Message.timestamp m \<noteq> None)"
  let ?k = "contactIdOf c"
  let ?in = "messagesOf tr ?k"
  let ?key = "\<lambda>m. the (Message.timestamp m)"
  from cin have fc: "map_of (contactsMap (finalState pf data)) ?k = Some c"
    unfolding out_def by (rule out_contact_final)
  then obtain f fs where ff: "fieldsOf tr ?k = f # fs"
    and ca: "contactAfter None (f # fs) = Some c"
    unfolding tr_def by (rule final_contact_cases)
  from h have ms: "ms = sortBy byTimestamp ?in"
    unfolding out_def tr_def by (auto simp: out_messages split: if_splits)
  with h have valid: "\<forall>m \<in> set ?in. Message.timestamp m \<noteq> None"
    by (simp add: set_sortBy)
  show "sorted (map ?key ms)" unfolding ms using valid by (rule sorted_valid(1))
  show "filter (\<lambda>m. Message.timestamp m = t) ms = filter (\<lambda>m. Message.timestamp m = t) ?in" for t
    unfolding ms using valid by (rule sorted_valid(2))
  have pairs: "map (\<lambda>m. (Message.timestamp m, Message.text m)) ?in =
               map (\<lambda>f. (Fields.timestamp f, messageText f)) (f # fs)"
    using messagesOf_pairs [of pf 0 data initialState ?k] ff
    by (simp add: tr_def acceptedRecords_def)
  then have "map fst (map (\<lambda>m. (Message.timestamp m, Message.text m)) ?in) =
             map fst (map (\<lambda>f. (Fields.timestamp f, messageText f)) (f # fs))" by simp
  then have ts: "map Message.timestamp ?in = map Fields.timestamp (f # fs)"
    by (simp add: comp_def)
  then have tset: "Message.timestamp ` set ?in = Fields.timestamp ` set (f # fs)"
    by (metis set_map)
  have fvalid: "\<forall>g \<in> set (f # fs). Fields.timestamp g \<noteq> None"
  proof
    fix g assume "g \<in> set (f # fs)"
    then have "Fields.timestamp g \<in> Message.timestamp ` set ?in" using tset by blast
    then show "Fields.timestamp g \<noteq> None" using valid by auto
  qed
  from contactAfter_new_lastTime [OF ca fvalid] obtain v where
    v: "lastMessageTime c = Some v" "Some v \<in> Fields.timestamp ` set (f # fs)"
       "\<forall>g \<in> set (f # fs). \<forall>x. Fields.timestamp g = Some x \<longrightarrow> x \<le> v"
    by blast
  have setms: "set ms = set ?in" unfolding ms by (rule set_sortBy)
  have "Max (?key ` set ms) = v"
  proof (rule Max_eqI)
    show "finite (?key ` set ms)" by simp
    show "y \<le> v" if "y \<in> ?key ` set ms" for y
    proof -
      from that obtain m where m: "m \<in> set ?in" "y = the (Message.timestamp m)"
        using setms by auto
      with valid obtain x where x: "Message.timestamp m = Some x" by auto
      with m have "Some x \<in> Message.timestamp ` set ?in" by (auto simp: image_iff intro: bexI [of _ m])
      then have "Some x \<in> Fields.timestamp ` set (f # fs)" using tset by simp
      then obtain g where "g \<in> set (f # fs)" "Fields.timestamp g = Some x" by force
      with v(3) have "x \<le> v" by blast
      with m x show ?thesis by simp
    qed
    from v(2) tset have "Some v \<in> Message.timestamp ` set ?in" by simp
    then obtain m where "m \<in> set ?in" "Message.timestamp m = Some v" by (auto simp: image_iff)
    then show "v \<in> ?key ` set ms" using setms by force
  qed
  with v(1) show "lastMessageTime c = Some (Max (?key ` set ms))" by simp
  from contactAfter_new_lastPair [OF ca]
  have "(lastMessageTime c, lastMessage c) \<in> set (map (\<lambda>f. (Fields.timestamp f, messageText f)) (f # fs))"
    by simp
  then have "(lastMessageTime c, lastMessage c) \<in> set (map (\<lambda>m. (Message.timestamp m, Message.text m)) ?in)"
    by (simp only: pairs)
  then obtain m where "m \<in> set ?in" "Message.timestamp m = lastMessageTime c"
    "Message.text m = lastMessage c" by auto
  then show "\<exists>m \<in> set ms. Message.timestamp m = lastMessageTime c \<and> Message.text m = lastMessage c"
    using setms by blast
next
  fix f c
  show "lastMessageTime (updateContact f c) =
                  (if dateGt (Fields.timestamp f) (lastMessageTime c) then Fields.timestamp f
                   else lastMessageTime c)" by (rule updateContact_last(1))
  show "lastMessage (updateContact f c) =
                  (if dateGt (Fields.timestamp f) (lastMessageTime c) then messageText f
                   else lastMessage c)" by (rule updateContact_last(2))
qed


theorem sorted_and_newest_when_valid_witness:
  "(\<exists>ms. map_of (Processed.messagesByContact (processMessagesData samplePlatform sampleData))
            (contactIdOf (contacts (processMessagesData samplePlatform sampleData) ! 1)) = Some ms \<and>
         list_all (\<lambda>m. Message.timestamp m \<noteq> None) ms \<and>
         map Message.text ms = [''call me'', ''hi'', ''more'', ''hello''] \<and>
         sorted (map (\<lambda>m. the (Message.timestamp m)) ms) \<and>
         lastMessageTime (contacts (processMessagesData samplePlatform sampleData) ! 1) =
           Some (Max ((\<lambda>m. the (Message.timestamp m)) ` set ms))) \<and>
   lastMessageTime (contacts (processMessagesData samplePlatform sampleData) ! 1) = Some 20200101100500 \<and>
   lastMessage (contacts (processMessagesData samplePlatform sampleData) ! 1) = ''hello''"
proof -
  define out where "out = processMessagesData samplePlatform sampleData"
  define c where "c = contacts out ! 1"
  have "length (contacts out) = 2" unfolding out_def by code_simp
  then have cin: "c \<in> set (contacts out)" unfolding c_def by simp
  have f0: "map_of (Processed.messagesByContact out) (contactIdOf c) \<noteq> None"
    unfolding c_def out_def by code_simp
  have f1: "map_option (list_all (\<lambda>m. Message.timestamp m \<noteq> None))
          (map_of (Processed.messagesByContact out) (contactIdOf c)) = Some True"
    unfolding c_def out_def by code_simp
  have f2: "map_option (map Message.text)
          (map_of (Processed.messagesByContact out) (contactIdOf c)) =
          Some [''call me'', ''hi'', ''more'', ''hello'']"
    unfolding c_def out_def by code_simp
  from f0 obtain ms where ms1: "map_of (Processed.messagesByContact out) (contactIdOf c) = Some ms"
    by blast
  have ms: "map_of (Processed.messagesByContact out) (contactIdOf c) = Some ms"
    "list_all (\<lambda>m. Message.timestamp m \<noteq> None) ms"
    "map Message.text ms = [''call me'', ''hi'', ''more'', ''hello'']"
    using ms1 f1 f2 by simp_all
  from ms(2) have valid: "\<forall>m \<in> set ms. Message.timestamp m \<noteq> None" by (simp add: list_all_iff)
  from sorted_and_newest_when_valid [of samplePlatform sampleData] cin ms(1) valid
  have "sorted (map (\<lambda>m. the (Message.timestamp m)) ms) \<and>
        lastMessageTime c = Some (Max ((\<lambda>m. the (Message.timestamp m)) ` set ms))"
    unfolding out_def by blast
  then have srt: "sorted (map (\<lambda>m. the (Message.timestamp m)) ms)"
    and mx: "lastMessageTime c = Some (Max ((\<lambda>m. the (Message.timestamp m)) ` set ms))"
    by simp_all
  have t: "lastMessageTime c = Some 20200101100500"
    unfolding c_def out_def by code_simp
  have l: "lastMessage c = ''hello''"
    unfolding c_def out_def by code_simp
  have "(\<exists>ms. map_of (Processed.messagesByContact out) (contactIdOf c) = Some ms \<and>
         list_all (\<lambda>m. Message.timestamp m \<noteq> None) ms \<and>
         map Message.text ms = [''call me'', ''hi'', ''more'', ''hello''] \<and>
         sorted (map (\<lambda>m. the (Message.timestamp m)) ms) \<and>
         lastMessageTime c = Some (Max ((\<lambda>m. the (Message.timestamp m)) ` set ms))) \<and>
        lastMessageTime c = Some 20200101100500 \<and> lastMessage c = ''hello''"
    using ms srt mx t l by (intro conjI exI [of _ ms])
  then show ?thesis unfolding c_def out_def .
qed

text \<open>
  Claim C2: for every input, the message list of every contact is sorted ascending by
  timestamp, stably, and \<open>lastMessageTime\<close> is the maximum timestamp of its messages.
  This holds for the contacts whose messages all have valid timestamps, as shown above.
  It fails when a timestamp is an Invalid Date: \<open>new Date(isoStr)\<close> does not throw, so
  the \<open>catch\<close> that falls back to the current time is not reached, and every comparison
  with the NaN time value is false.  On \<open>undatedData\<close> the contact keeps the Invalid Date
  as \<open>lastMessageTime\<close> and the text of the first record as \<open>lastMessage\<close>, although
  its second message has a valid, hence maximal, timestamp.
\<close>

theorem invalid_date_is_kept:
  "processMessagesData samplePlatform undatedData =
     \<lparr>contacts =
        [\<lparr>Contact.phone = ''+9601234567'', Contact.name = ''Amy'', normalizedPhone = ''9601234567'',
          lastMessage = ''first'', lastMessageTime = None, messageCount = 2,
          Contact.isRead = True\<rparr>],
      Processed.messagesByContact =
        [(''9601234567'',
          [\<lparr>id_m = Some 1, Message.text = ''first'', Message.timestamp = None,
            Message.isFromMe = False, Message.isRead = True, Message.status = Read,
            isCallLog = False\<rparr>,
           \<lparr>id_m = Some 2, Message.text = ''second'', Message.timestamp = Some 20140614100000,
            Message.isFromMe = False, Message.isRead = True, Message.status = Read,
            isCallLog = False\<rparr>])],
      Processed.searchableData =
        [(''9601234567'',
          [''From: +9601234567 Amy'', ''first'', ''From: +9601234567 Amy'', ''second''])]\<rparr>"
  by code_simp



section \<open>Skipped records and continuation rows\<close>

text \<open>
  Claim C7, as amended.  A unified record leaves the state of the loop as it is, and is
  not among the folded records, whenever its \<open>Type\<close> is none of \<open>SMS Messages\<close>,
  \<open>Instant Messages\<close>, \<open>Call Log\<close>; or it is no call log and its \<open>Description\<close> is empty;
  or \<open>extractPhoneFromParty\<close> finds no phone in its \<open>Party\<close>, the trimmed \<open>Party\<close> is
  not \<open>From:\<close> or \<open>To:\<close> (in any letter case), and it is not a call log whose \<open>Party\<close>
  is non-empty and contains neither \<open>From:\<close> nor \<open>To:\<close>.
\<close>

theorem skipped_records:
  assumes "(Type d \<noteq> ''SMS Messages'' \<and> Type d \<noteq> ''Instant Messages'' \<and> Type d \<noteq> ''Call Log'') \<or>
           (Type d \<noteq> ''Call Log'' \<and> Description d = []) \<or>
           (extractPhoneFromParty (Party d) = None \<and>
            \<not> emptyPrefix ''from:'' (trim (Party d)) \<and> \<not> emptyPrefix ''to:'' (trim (Party d)) \<and>
            \<not> (Type d = ''Call Log'' \<and> Party d \<noteq> [] \<and>
               \<not> includesStr (Party d) ''From:'' \<and> \<not> includesStr (Party d) ''To:''))"
  shows "processRecord pf i (Data d) st = st \<and>
         accepted pf i (Data d # rest) st = accepted pf (Suc i) rest st \<and>
         forEachRecord pf i (Data d # rest) st = forEachRecord pf (Suc i) rest st"
proof -
  have "extractData pf i st d = None"
    using assms by (auto simp: extractData_def Let_def split: option.splits)
  then show ?thesis by (simp add: processRecord_def)
qed



theorem skipped_records_witness:
  "Type calendarRow \<noteq> ''SMS Messages'' \<and> Type calendarRow \<noteq> ''Instant Messages'' \<and>
   Type calendarRow \<noteq> ''Call Log'' \<and>
   processRecord samplePlatform 5 (Data calendarRow) (finalState samplePlatform sampleData) =
     finalState samplePlatform sampleData \<and>
   Type emptyRow \<noteq> ''Call Log'' \<and> Description emptyRow = [] \<and>
   processRecord samplePlatform 5 (Data emptyRow) (finalState samplePlatform sampleData) =
     finalState samplePlatform sampleData \<and>
   extractPhoneFromParty (Party namelessRow) = None \<and>
   \<not> emptyPrefix ''from:'' (trim (Party namelessRow)) \<and>
   \<not> emptyPrefix ''to:'' (trim (Party namelessRow)) \<and> Type namelessRow \<noteq> ''Call Log'' \<and>
   processRecord samplePlatform 5 (Data namelessRow) (finalState samplePlatform sampleData) =
     finalState samplePlatform sampleData"
proof -
  define st where "st = finalState samplePlatform sampleData"
  have a: "Type calendarRow \<noteq> ''SMS Messages'' \<and> Type calendarRow \<noteq> ''Instant Messages'' \<and>
           Type calendarRow \<noteq> ''Call Log''" by code_simp
  have b: "Type emptyRow \<noteq> ''Call Log'' \<and> Description emptyRow = []" by code_simp
  have c: "extractPhoneFromParty (Party namelessRow) = None \<and>
           \<not> emptyPrefix ''from:'' (trim (Party namelessRow)) \<and>
           \<not> emptyPrefix ''to:'' (trim (Party namelessRow)) \<and> Type namelessRow \<noteq> ''Call Log''"
    by code_simp
  have a': "processRecord samplePlatform 5 (Data calendarRow) st = st"
    using skipped_records [of calendarRow samplePlatform 5 st "[]"] a by blast
  have b': "processRecord samplePlatform 5 (Data emptyRow) st = st"
    using skipped_records [of emptyRow samplePlatform 5 st "[]"] b by blast
  have c': "processRecord samplePlatform 5 (Data namelessRow) st = st"
    using skipped_records [of namelessRow samplePlatform 5 st "[]"] c by blast
  from a b c a' b' c' show ?thesis unfolding st_def by blast
qed


text \<open>
  Claim C7 as stated fails: a call log whose \<open>Party\<close> is a name yields no phone, is no
  continuation row and is no bare digit string, yet it is folded, with the name as phone
  and key.
\<close>

theorem named_call_log_is_folded:
  "Type namedCallLog = ''Call Log'' \<and> Party namedCallLog = ''Alice'' \<and>
   extractPhoneFromParty ''Alice'' = None \<and>
   \<not> emptyPrefix ''from:'' (trim ''Alice'') \<and> \<not> emptyPrefix ''to:'' (trim ''Alice'') \<and>
   \<not> list_all isDigit ''Alice'' \<and>
   processMessagesData samplePlatform [Data namedCallLog] =
     \<lparr>contacts =
        [\<lparr>Contact.phone = ''Alice'', Contact.name = ''Unknown'', normalizedPhone = [],
          lastMessage = [], lastMessageTime = Some 20200103120000, messageCount = 1,
          Contact.isRead = True\<rparr>],
      Processed.messagesByContact =
        [(''Alice'',
          [\<lparr>id_m = Some 14, Message.text = [], Message.timestamp = Some 20200103120000,
            Message.isFromMe = False, Message.isRead = True, Message.status = Read,
            isCallLog = True\<rparr>])],
      Processed.searchableData = [(''Alice'', [''Alice''])]\<rparr>"
  by code_simp







section \<open>The status of a message\<close>

text \<open>
  The status mapping and its use.  \<open>mapSMSStatusToMessageStatus\<close> follows the table: an incoming
  message is \<open>read\<close> for the status \<open>read\<close> (in any letter case) and \<open>delivered\<close>
  otherwise; an outgoing one is \<open>delivered\<close> for \<open>sent\<close>, \<open>read\<close> for \<open>read\<close>, \<open>failed\<close>
  for \<open>unsent\<close>, \<open>failed\<close> or \<open>error\<close>, and \<open>sent\<close> for any other or a missing value.
  For every record that is not skipped, the status of the built message is the table
  applied to \<open>Read\<close> when \<open>isRead\<close> holds and to \<open>Unread\<close> otherwise, and to the
  direction: \<open>read\<close> when \<open>isRead\<close>, else \<open>sent\<close> when outgoing and \<open>delivered\<close> when
  incoming.  \<open>isRead\<close> always holds for a unified record and is \<open>status = "Read"\<close> for
  a legacy one.  The earlier, legacy-only version applied the table to the record's status.
\<close>

theorem status_mapping:
  "(\<forall>s. mapSMSStatusToMessageStatus s False =
         (if map_option toLowerCase s = Some ''read'' then Read else Delivered)) \<and>
   (\<forall>s. mapSMSStatusToMessageStatus s True =
         (if map_option toLowerCase s = Some ''sent'' then Delivered
          else if map_option toLowerCase s = Some ''read'' then Read
          else if map_option toLowerCase s \<in> {Some ''unsent'', Some ''failed'', Some ''error''} then Failed
          else Sent)) \<and>
   (\<forall>pf i st r f. extractFields pf i st r = Some f \<longrightarrow>
      Message.status (buildMessage f r) =
        mapSMSStatusToMessageStatus (Some (if Fields.isRead f then ''Read'' else ''Unread'')) (Fields.isFromMe f) \<and>
      Message.status (buildMessage f r) =
        (if Fields.isRead f then Read else if Fields.isFromMe f then Sent else Delivered) \<and>
      Message.isRead (buildMessage f r) = Fields.isRead f \<and>
      Message.isFromMe (buildMessage f r) = Fields.isFromMe f \<and>
      (case r of Data d \<Rightarrow> Fields.isRead f
       | Legacy l \<Rightarrow> (Fields.isRead f \<longleftrightarrow> SMSRecord.status l = ''Read'') \<and>
                     (Fields.isFromMe f \<longleftrightarrow> direction (party l) = ''to''))) \<and>
   (\<forall>pf l. Message.status (buildMessageLegacyOnly pf l) =
        mapSMSStatusToMessageStatus (Some (SMSRecord.status l)) (direction (party l) = ''to''))"
proof (intro conjI allI impI)
  fix s
  show "mapSMSStatusToMessageStatus s False =
         (if map_option toLowerCase s = Some ''read'' then Read else Delivered)"
    by (rule mapSMSStatus_table(1))
  show "mapSMSStatusToMessageStatus s True =
         (if map_option toLowerCase s = Some ''sent'' then Delivered
          else if map_option toLowerCase s = Some ''read'' then Read
          else if map_option toLowerCase s \<in> {Some ''unsent'', Some ''failed'', Some ''error''} then Failed
          else Sent)"
    by (rule mapSMSStatus_table(2))
next
  fix pf :: Platform and i st r f
  assume e: "extractFields pf i st r = Some f"
  show "Message.status (buildMessage f r) =
        mapSMSStatusToMessageStatus (Some (if Fields.isRead f then ''Read'' else ''Unread'')) (Fields.isFromMe f)"
    by (simp add: buildMessage_def)
  show "Message.status (buildMessage f r) =
        (if Fields.isRead f then Read else if Fields.isFromMe f then Sent else Delivered)"
    by (rule buildMessage_status)
  show "Message.isRead (buildMessage f r) = Fields.isRead f" by (rule buildMessage_fields)
  show "Message.isFromMe (buildMessage f r) = Fields.isFromMe f" by (rule buildMessage_fields)
  show "case r of Data d \<Rightarrow> Fields.isRead f
       | Legacy l \<Rightarrow> (Fields.isRead f \<longleftrightarrow> SMSRecord.status l = ''Read'') \<and>
                     (Fields.isFromMe f \<longleftrightarrow> direction (party l) = ''to'')"
    using e by (rule extractFields_isRead)
next
  fix pf :: Platform and l
  show "Message.status (buildMessageLegacyOnly pf l) =
        mapSMSStatusToMessageStatus (Some (SMSRecord.status l)) (direction (party l) = ''to'')"
    by (simp add: buildMessageLegacyOnly_def Let_def)
qed


theorem status_mapping_witness:
  "mapSMSStatusToMessageStatus (Some ''READ'') False = Read \<and>
   mapSMSStatusToMessageStatus (Some ''Failed'') True = Failed \<and>
   mapSMSStatusToMessageStatus None True = Sent \<and>
   (\<exists>f. extractFields samplePlatform 0 initialState (Legacy sentRecord) = Some f \<and>
        \<not> Fields.isRead f \<and> Fields.isFromMe f \<and>
        Message.status (buildMessage f (Legacy sentRecord)) = Sent) \<and>
   (\<exists>f. extractFields samplePlatform 0 initialState (sampleData ! 0) = Some f \<and>
        Fields.isRead f \<and> Message.status (buildMessage f (sampleData ! 0)) = Read)"
proof -
  note inst = status_mapping
  have l1: "map_option toLowerCase (Some ''READ'') = Some ''read''" by code_simp
  have l2: "map_option toLowerCase (Some ''Failed'') = Some ''failed''" by code_simp
  from inst have "mapSMSStatusToMessageStatus (Some ''READ'') False =
         (if map_option toLowerCase (Some ''READ'') = Some ''read'' then Read else Delivered)"
    by blast
  then have a: "mapSMSStatusToMessageStatus (Some ''READ'') False = Read"
    unfolding l1 by simp
  from inst have "mapSMSStatusToMessageStatus (Some ''Failed'') True =
         (if map_option toLowerCase (Some ''Failed'') = Some ''sent'' then Delivered
          else if map_option toLowerCase (Some ''Failed'') = Some ''read'' then Read
          else if map_option toLowerCase (Some ''Failed'') \<in> {Some ''unsent'', Some ''failed'', Some ''error''} then Failed
          else Sent)" by blast
  then have b: "mapSMSStatusToMessageStatus (Some ''Failed'') True = Failed"
    unfolding l2 by simp
  from inst have "mapSMSStatusToMessageStatus None True =
         (if map_option toLowerCase None = Some ''sent'' then Delivered
          else if map_option toLowerCase None = Some ''read'' then Read
          else if map_option toLowerCase None \<in> {Some ''unsent'', Some ''failed'', Some ''error''} then Failed
          else Sent)" by blast
  then have c: "mapSMSStatusToMessageStatus None True = Sent" by simp
  define r where "r = Legacy sentRecord"
  define r0 where "r0 = sampleData ! 0"
  have "map_option (\<lambda>f. (Fields.isRead f, Fields.isFromMe f))
          (extractFields samplePlatform 0 initialState r) = Some (False, True)"
    unfolding r_def by code_simp
  then obtain f where f: "extractFields samplePlatform 0 initialState r = Some f"
    "\<not> Fields.isRead f" "Fields.isFromMe f" by auto
  from inst f(1) have "Message.status (buildMessage f r) =
        (if Fields.isRead f then Read else if Fields.isFromMe f then Sent else Delivered)"
    by blast
  with f have d: "Message.status (buildMessage f r) = Sent" by simp
  have "map_option Fields.isRead (extractFields samplePlatform 0 initialState r0) = Some True"
    unfolding r0_def by code_simp
  then obtain g where g: "extractFields samplePlatform 0 initialState r0 = Some g"
    "Fields.isRead g" by auto
  from inst g(1) have "Message.status (buildMessage g r0) =
        (if Fields.isRead g then Read else if Fields.isFromMe g then Sent else Delivered)"
    by blast
  with g have e: "Message.status (buildMessage g r0) = Read" by simp
  have "mapSMSStatusToMessageStatus (Some ''READ'') False = Read \<and>
   mapSMSStatusToMessageStatus (Some ''Failed'') True = Failed \<and>
   mapSMSStatusToMessageStatus None True = Sent \<and>
   (\<exists>f. extractFields samplePlatform 0 initialState r = Some f \<and>
        \<not> Fields.isRead f \<and> Fields.isFromMe f \<and>
        Message.status (buildMessage f r) = Sent) \<and>
   (\<exists>f. extractFields samplePlatform 0 initialState r0 = Some f \<and>
        Fields.isRead f \<and> Message.status (buildMessage f r0) = Read)"
    using a b c f d g e by blast
  then show ?thesis unfolding r_def r0_def .
qed

text \<open>
  Claim C4: the status of the message built from a record is the mapping table applied to
  the source status of the record and to its direction.  The table is what
  \<open>mapSMSStatusToMessageStatus\<close> computes, and the earlier version applied it to the
  source status.  The present \<open>processMessagesData\<close> passes only the read state: an
  outgoing legacy record with the source status \<open>Sent\<close> gets the status \<open>sent\<close>, where
  the table gives \<open>delivered\<close>.
\<close>

theorem sent_status_is_lost:
  "SMSRecord.status sentRecord = ''Sent'' \<and> direction (party sentRecord) = ''to'' \<and>
   mapSMSStatusToMessageStatus (Some ''Sent'') True = Delivered \<and>
   Message.status (buildMessageLegacyOnly samplePlatform sentRecord) = Delivered \<and>
   processMessagesData samplePlatform [Legacy sentRecord] =
     \<lparr>contacts =
        [\<lparr>Contact.phone = ''7771234'', Contact.name = ''Unknown'', normalizedPhone = ''9607771234'',
          lastMessage = ''ok'', lastMessageTime = Some 20200102080000, messageCount = 1,
          Contact.isRead = True\<rparr>],
      Processed.messagesByContact =
        [(''9607771234'',
          [\<lparr>id_m = Some 5, Message.text = ''ok'', Message.timestamp = Some 20200102080000,
            Message.isFromMe = True, Message.isRead = False, Message.status = Sent,
            isCallLog = False\<rparr>])],
      Processed.searchableData = [(''9607771234'', [''7771234'', ''ok''])]\<rparr>"
  by code_simp



section \<open>Match location\<close>

text \<open>
  Claim C8, as amended.  Let the query, trimmed and lowercased, be non-empty and let a
  matched contact have a non-empty message list.  If the lowercased text of some message
  contains the query, the lookup reports the first such message of the list (which is
  in chronological order), with its id and the snippet around the first occurrence: at
  most 20 characters before it, the matched characters and at most 20 characters after it,
  with a leading ellipsis when more than 20 characters precede the match and a trailing
  one when more than 20 follow it.  If no text contains the query, the lookup reports the
  last, most recent, message with the first 60 characters of its text (and an ellipsis
  when the text is longer), provided that text is not empty, and nothing otherwise.  A
  contact without a message list gets no entry.  A 5-character query matching at offset 50
  of a 100-character text yields the 45 characters from offset 30 on between a leading and
  a trailing ellipsis.  The earlier synchronous lookup finds the same first match and has
  no fallback.
\<close>

theorem match_location:
  fixes searchQuery :: string
  defines "query \<equiv> toLowerCase (trim searchQuery)"
  assumes q: "query \<noteq> []"
  shows
   "(\<forall>m ids k. map_of (computeMatchMeta searchQuery (Some m) (Some ids)) k =
        (if k \<in> set ids then matchMetaFor query (map_of m k) else None)) \<and>
    matchMetaFor query None = None \<and> matchMetaFor query (Some []) = None \<and>
    (\<forall>ms. ms \<noteq> [] \<and> (\<exists>m \<in> set ms. includesStr (toLowerCase (Message.text m)) query) \<longrightarrow>
       (\<exists>pre m post idx. ms = pre @ m # post \<and>
          (\<forall>x \<in> set pre. \<not> includesStr (toLowerCase (Message.text x)) query) \<and>
          indexOf (toLowerCase (Message.text m)) query = Some idx \<and>
          take (length query) (drop idx (toLowerCase (Message.text m))) = query \<and>
          (\<forall>j<idx. take (length query) (drop j (toLowerCase (Message.text m))) \<noteq> query) \<and>
          matchMetaFor query (Some ms) =
            Some \<lparr>snippet = snippetAt (Message.text m) idx (length query), messageId = id_m m\<rparr> \<and>
          firstMatchSync query ms =
            Some \<lparr>snippet = snippetAt (Message.text m) idx (length query), messageId = id_m m\<rparr>)) \<and>
    (\<forall>ms. ms \<noteq> [] \<and> (\<forall>m \<in> set ms. \<not> includesStr (toLowerCase (Message.text m)) query) \<longrightarrow>
       firstMatchSync query ms = None \<and>
       matchMetaFor query (Some ms) =
         (if Message.text (last ms) = [] then None
          else Some \<lparr>snippet = (if 60 < length (Message.text (last ms))
                                 then take 60 (Message.text (last ms)) @ ellipsis
                                 else Message.text (last ms)),
                     messageId = id_m (last ms)\<rparr>)) \<and>
    (\<forall>txt idx n. idx + n \<le> length txt \<longrightarrow>
       snippetAt txt idx n =
         (if 20 < idx then ellipsis else []) @
         take (min 20 idx) (drop (idx - 20) txt) @ take n (drop idx txt) @ take 20 (drop (idx + n) txt) @
         (if idx + n + 20 < length txt then ellipsis else [])) \<and>
    (\<forall>txt. length txt = 100 \<and> length query = 5 \<and> indexOf (toLowerCase txt) query = Some 50 \<longrightarrow>
       snippetAt txt 50 (length query) = ellipsis @ take 45 (drop 30 txt) @ ellipsis \<and>
       length (take 45 (drop 30 txt)) = 45 \<and>
       length (snippetAt txt 50 (length query)) = 47)"
proof (intro conjI allI impI)
  fix m ids k
  show "map_of (computeMatchMeta searchQuery (Some m) (Some ids)) k =
        (if k \<in> set ids then matchMetaFor query (map_of m k) else None)"
    unfolding query_def using q [unfolded query_def] by (rule computeMatchMeta_lookup)
next
  show "matchMetaFor query None = None" by (simp add: matchMetaFor_def)
  show "matchMetaFor query (Some []) = None" by (simp add: matchMetaFor_def)
next
  fix ms :: "Message list"
  assume a: "ms \<noteq> [] \<and> (\<exists>m \<in> set ms. includesStr (toLowerCase (Message.text m)) query)"
  then have "firstMatch query ms \<noteq> None" using firstMatch_None [OF q, of ms] by blast
  then obtain r where r: "firstMatch query ms = Some r" by blast
  from firstMatch_Some [OF q r] obtain pre m post idx where
    p: "ms = pre @ m # post"
       "\<forall>x \<in> set pre. \<not> includesStr (toLowerCase (Message.text x)) query"
       "indexOf (toLowerCase (Message.text m)) query = Some idx"
       "r = \<lparr>snippet = snippetAt (Message.text m) idx (length query), messageId = id_m m\<rparr>"
    by blast
  from indexOf_Some [OF p(3)] have
    i: "take (length query) (drop idx (toLowerCase (Message.text m))) = query"
       "\<forall>j<idx. take (length query) (drop j (toLowerCase (Message.text m))) \<noteq> query"
    by auto
  have mm: "matchMetaFor query (Some ms) = Some r" using a r by (simp add: matchMetaFor_def)
  have sy: "firstMatchSync query ms = Some r" using r by (simp add: firstMatchSync_eq [OF q])
  have "ms = pre @ m # post \<and>
          (\<forall>x \<in> set pre. \<not> includesStr (toLowerCase (Message.text x)) query) \<and>
          indexOf (toLowerCase (Message.text m)) query = Some idx \<and>
          take (length query) (drop idx (toLowerCase (Message.text m))) = query \<and>
          (\<forall>j<idx. take (length query) (drop j (toLowerCase (Message.text m))) \<noteq> query) \<and>
          matchMetaFor query (Some ms) =
            Some \<lparr>snippet = snippetAt (Message.text m) idx (length query), messageId = id_m m\<rparr> \<and>
          firstMatchSync query ms =
            Some \<lparr>snippet = snippetAt (Message.text m) idx (length query), messageId = id_m m\<rparr>"
    using p i mm sy by simp
  then show "\<exists>pre m post idx. ms = pre @ m # post \<and>
          (\<forall>x \<in> set pre. \<not> includesStr (toLowerCase (Message.text x)) query) \<and>
          indexOf (toLowerCase (Message.text m)) query = Some idx \<and>
          take (length query) (drop idx (toLowerCase (Message.text m))) = query \<and>
          (\<forall>j<idx. take (length query) (drop j (toLowerCase (Message.text m))) \<noteq> query) \<and>
          matchMetaFor query (Some ms) =
            Some \<lparr>snippet = snippetAt (Message.text m) idx (length query), messageId = id_m m\<rparr> \<and>
          firstMatchSync query ms =
            Some \<lparr>snippet = snippetAt (Message.text m) idx (length query), messageId = id_m m\<rparr>"
    by blast
next
  fix ms :: "Message list"
  assume a: "ms \<noteq> [] \<and> (\<forall>m \<in> set ms. \<not> includesStr (toLowerCase (Message.text m)) query)"
  then have n: "firstMatch query ms = None" using firstMatch_None [OF q, of ms] by blast
  then show "firstMatchSync query ms = None" by (simp add: firstMatchSync_eq [OF q])
  show "matchMetaFor query (Some ms) =
         (if Message.text (last ms) = [] then None
          else Some \<lparr>snippet = (if 60 < length (Message.text (last ms))
                                 then take 60 (Message.text (last ms)) @ ellipsis
                                 else Message.text (last ms)),
                     messageId = id_m (last ms)\<rparr>)"
    using a n by (simp add: matchMetaFor_def fallbackMeta_def Let_def slice_def)
next
  fix t :: string and idx :: nat and n :: nat
  assume "idx + n \<le> length t"
  then show "snippetAt t idx n =
         (if 20 < idx then ellipsis else []) @
         take (min 20 idx) (drop (idx - 20) t) @ take n (drop idx t) @ take 20 (drop (idx + n) t) @
         (if idx + n + 20 < length t then ellipsis else [])"
    by (rule snippetAt_shape)
next
  fix t :: string
  assume a: "length t = 100 \<and> length query = 5 \<and> indexOf (toLowerCase t) query = Some 50"
  then have s: "snippetAt t 50 (length query) = ellipsis @ take 45 (drop 30 t) @ ellipsis"
    by (simp add: snippetAt_def Let_def slice_def)
  then show "snippetAt t 50 (length query) = ellipsis @ take 45 (drop 30 t) @ ellipsis" .
  show "length (take 45 (drop 30 t)) = 45" using a by simp
  show "length (snippetAt t 50 (length query)) = 47" unfolding s using a by (simp add: ellipsis_def)
qed

theorem match_location_witness:
  "toLowerCase (trim '' World '') = ''world'' \<and>
   length (Message.text longMessage) = 100 \<and>
   indexOf (toLowerCase (Message.text longMessage)) ''world'' = Some 50 \<and>
   snippetAt (Message.text longMessage) 50 (length ''world'') =
     ellipsis @ take 45 (drop 30 (Message.text longMessage)) @ ellipsis \<and>
   length (snippetAt (Message.text longMessage) 50 (length ''world'')) = 47 \<and>
   matchMetaFor ''world'' (Some [shortMessage, longMessage]) =
     Some \<lparr>snippet = snippetAt (Message.text longMessage) 50 (length ''world''), messageId = Some 7\<rparr> \<and>
   toLowerCase (trim ''zzz'') = ''zzz'' \<and>
   matchMetaFor ''zzz'' (Some [longMessage, shortMessage]) =
     Some \<lparr>snippet = ''see you'', messageId = Some 8\<rparr>"
proof -
  define t where "t = Message.text longMessage"
  define ms where "ms = [longMessage, shortMessage]"
  have q1: "toLowerCase (trim '' World '') = ''world''" by code_simp
  have q2: "toLowerCase (trim ''zzz'') = ''zzz''" by code_simp
  have l: "length t = 100" unfolding t_def by code_simp
  have i: "indexOf (toLowerCase t) ''world'' = Some 50" unfolding t_def by code_simp
  have mm: "matchMetaFor ''world'' (Some [shortMessage, longMessage]) =
     Some \<lparr>snippet = snippetAt (Message.text longMessage) 50 (length ''world''), messageId = Some 7\<rparr>"
    by code_simp
  have n1: "''world'' \<noteq> []" and n2: "''zzz'' \<noteq> []" by simp_all
  note inst1 = match_location [of "'' World ''", unfolded q1, OF n1]
  note inst2 = match_location [of "''zzz''", unfolded q2, OF n2]
  note D = inst1 [THEN conjunct2, THEN conjunct2, THEN conjunct2, THEN conjunct2, THEN conjunct2,
                  THEN conjunct2, THEN spec, of t, THEN mp]
  note B = inst2 [THEN conjunct2, THEN conjunct2, THEN conjunct2, THEN conjunct2, THEN conjunct1,
                  THEN spec, of ms, THEN mp]
  have "length t = 100 \<and> length ''world'' = 5 \<and> indexOf (toLowerCase t) ''world'' = Some 50"
    using l i by simp
  from D [OF this] have s: "snippetAt t 50 (length ''world'') = ellipsis @ take 45 (drop 30 t) @ ellipsis"
    and n: "length (snippetAt t 50 (length ''world'')) = 47"
    by blast+
  have ne: "ms \<noteq> []" by (simp add: ms_def)
  have no: "list_all (\<lambda>m. \<not> includesStr (toLowerCase (Message.text m)) ''zzz'') ms"
    unfolding ms_def by code_simp
  then have "\<forall>m \<in> set ms. \<not> includesStr (toLowerCase (Message.text m)) ''zzz''"
    by (simp only: list_all_iff)
  with ne have "ms \<noteq> [] \<and> (\<forall>m \<in> set ms. \<not> includesStr (toLowerCase (Message.text m)) ''zzz'')"
    by blast
  from B [OF this] have "matchMetaFor ''zzz'' (Some ms) =
         (if Message.text (last ms) = [] then None
          else Some \<lparr>snippet = (if 60 < length (Message.text (last ms))
                                 then take 60 (Message.text (last ms)) @ ellipsis
                                 else Message.text (last ms)),
                     messageId = id_m (last ms)\<rparr>)"
    by blast
  moreover have "(if Message.text (last ms) = [] then None
          else Some \<lparr>snippet = (if 60 < length (Message.text (last ms))
                                 then take 60 (Message.text (last ms)) @ ellipsis
                                 else Message.text (last ms)),
                     messageId = id_m (last ms)\<rparr>) = Some \<lparr>snippet = ''see you'', messageId = Some 8\<rparr>"
    unfolding ms_def by code_simp
  ultimately have f: "matchMetaFor ''zzz'' (Some ms) = Some \<lparr>snippet = ''see you'', messageId = Some 8\<rparr>"
    by (rule trans)
  have "toLowerCase (trim '' World '') = ''world'' \<and>
   length t = 100 \<and>
   indexOf (toLowerCase t) ''world'' = Some 50 \<and>
   snippetAt t 50 (length ''world'') = ellipsis @ take 45 (drop 30 t) @ ellipsis \<and>
   length (snippetAt t 50 (length ''world'')) = 47 \<and>
   matchMetaFor ''world'' (Some [shortMessage, longMessage]) =
     Some \<lparr>snippet = snippetAt (Message.text longMessage) 50 (length ''world''), messageId = Some 7\<rparr> \<and>
   toLowerCase (trim ''zzz'') = ''zzz'' \<and>
   matchMetaFor ''zzz'' (Some ms) = Some \<lparr>snippet = ''see you'', messageId = Some 8\<rparr>"
    using q1 q2 l i s n mm f by (intro conjI)
  then show ?thesis unfolding t_def ms_def .
qed

text \<open>
  Claim C8 as stated fails: a contact whose only message is a call log without description
  is matched by a search for its number, but the lookup reports neither a message nor a
  snippet for it, since the fallback requires the most recent message to have text.
\<close>

theorem call_log_contact_has_no_match_meta:
  "Processed.messagesByContact (processMessagesData samplePlatform [Data bareCallLog]) =
     [(''9607778787'',
       [\<lparr>id_m = Some 20, Message.text = [], Message.timestamp = Some 20200103120000,
         Message.isFromMe = False, Message.isRead = True, Message.status = Read,
         isCallLog = True\<rparr>])] \<and>
   snd (onmessage
         (fst (onmessage [] (Init (workerSearchIndex (searchIndex (processMessagesData samplePlatform [Data bareCallLog]))))))
         (Search 1 ''7778787'')) = Some (Result 1 [''9607778787'']) \<and>
   computeMatchMeta ''7778787''
     (Some (Processed.messagesByContact (processMessagesData samplePlatform [Data bareCallLog])))
     (Some [''9607778787'']) = []"
  by code_simp



end
